theory Spec2Isabelle
  imports Main "HOL-Library.Word"
begin

unbundle bit_operations_syntax

section \<open>Outcomes of a call\<close>

text \<open>
  A C++ call either returns a value, stops the process at a failed \<open>assert\<close>
  (\<open>Aborts\<close>), or has undefined behaviour (\<open>Undefined\<close>: an element access out
  of range, a violated precondition of a standard-library object). Assertions are
  modelled as enabled.
\<close>

datatype 'a outcome = Returns 'a | Aborts | Undefined

type_synonym uint32_t = "32 word"
type_synonym uint64_t = "64 word"

section \<open>RandomAccessUnorderedMap (\<^verbatim>\<open>src/unnamed/part_000\<close>)\<close>

text \<open>\<open>struct Element { K key; V value; }\<close>\<close>

record ('k, 'v) Element =
  key :: 'k
  elem_value :: 'v

text \<open>
  The three data members of the class: the vector \<open>element_set\<close>, the
  \<open>std::unordered_map<K, uint32_t>\<close> \<open>index_map\<close> and the engine
  \<open>random_number_generator\<close>, whose state is kept abstract (\<open>'g\<close>).
\<close>

record ('k, 'v, 'g) RandomAccessUnorderedMap =
  element_set :: "('k, 'v) Element list"
  index_map :: "'k \<rightharpoonup> uint32_t"
  random_number_generator :: 'g

text \<open>
  The constructor leaves both containers empty and seeds the engine; the seed read
  from \<open>std::random_device\<close> is the parameter.
\<close>

definition RandomAccessUnorderedMap_new :: "'g \<Rightarrow> ('k, 'v, 'g) RandomAccessUnorderedMap" where
  "RandomAccessUnorderedMap_new seed =
     \<lparr>element_set = [], index_map = Map.empty, random_number_generator = seed\<rparr>"

text \<open>
  \<open>element_set.size() - 1\<close> is computed in \<open>size_t\<close> (64 bits, unsigned): on an
  empty vector it wraps to \<open>2^64 - 1\<close>.
\<close>

definition size_minus_1 :: "nat \<Rightarrow> nat" where
  "size_minus_1 n = (n + (2 ^ 64 - 1)) mod 2 ^ 64"

definition find_index :: "('k, 'v, 'g) RandomAccessUnorderedMap \<Rightarrow> 'k \<Rightarrow> uint32_t option" where
  "find_index m k = index_map m k"

text \<open>\<open>find\<close>: \<open>element_set[index]\<close> is an unchecked access.\<close>

definition find_op :: "('k, 'v, 'g) RandomAccessUnorderedMap \<Rightarrow> 'k \<Rightarrow> 'v option outcome" where
  "find_op m k =
     (case find_index m k of
        Some index \<Rightarrow>
          if unat index < length (element_set m)
          then Returns (Some (elem_value (element_set m ! unat index)))
          else Undefined
      | None \<Rightarrow> Returns None)"

text \<open>
  \<open>remove\<close>. The comparison \<open>index == element_set.size() - 1\<close> is made in
  \<open>size_t\<close>. In the other branch \<open>std::swap\<close> exchanges the slots \<open>index\<close> and
  \<open>size() - 1\<close> (both unchecked accesses; \<open>index\<close> in range makes the vector
  non-empty, and so the last slot in range), \<open>pop_back\<close> drops the last slot, the key
  now stored at \<open>index\<close> is read (unchecked) and written to the index map with the
  bracket operator. \<open>index_map.erase(key)\<close> ends both branches.
\<close>

definition remove_op ::
  "('k, 'v, 'g) RandomAccessUnorderedMap \<Rightarrow> 'k \<Rightarrow> ('k, 'v, 'g) RandomAccessUnorderedMap outcome" where
  "remove_op m k =
     (case find_index m k of
        None \<Rightarrow> Returns m
      | Some index \<Rightarrow>
          (let es = element_set m; last_slot = size_minus_1 (length es) in
           if unat index = last_slot then
             Returns (m\<lparr>element_set := butlast es, index_map := (index_map m)(k := None)\<rparr>)
           else if unat index < length es then
             (let swapped = es[unat index := es ! last_slot, last_slot := es ! unat index];
                  es' = butlast swapped
              in if unat index < length es' then
                   (let local_key = key (es' ! unat index)
                    in Returns (m\<lparr>element_set := es',
                                  index_map := ((index_map m)(local_key \<mapsto> index))(k := None)\<rparr>))
                 else Undefined)
           else Undefined))"

text \<open>
  \<open>insert\<close>: \<open>remove(key)\<close>, \<open>emplace_back\<close>, then \<open>index_map.insert\<close> of the
  pair \<open>(key, size() - 1)\<close>, the \<open>size_t\<close> value converted to \<open>uint32_t\<close> (it
  keeps the low 32 bits). \<open>unordered_map::insert\<close> leaves an existing entry as it is.
\<close>

definition insert_op ::
  "('k, 'v, 'g) RandomAccessUnorderedMap \<Rightarrow> 'k \<Rightarrow> 'v \<Rightarrow> ('k, 'v, 'g) RandomAccessUnorderedMap outcome" where
  "insert_op m k v =
     (case remove_op m k of
        Returns m1 \<Rightarrow>
          (let es = element_set m1 @ [\<lparr>key = k, elem_value = v\<rparr>];
               slot = (word_of_nat (size_minus_1 (length es)) :: uint32_t)
           in Returns (m1\<lparr>element_set := es,
                           index_map := (if index_map m1 k = None then (index_map m1)(k \<mapsto> slot)
                                         else index_map m1)\<rparr>))
      | Aborts \<Rightarrow> Aborts
      | Undefined \<Rightarrow> Undefined)"

text \<open>
  \<open>random_key\<close>. \<open>std::uniform_int_distribution<>\<close> is a distribution of \<open>int\<close>:
  its upper bound is \<open>size() - 1\<close> converted from \<open>size_t\<close> to a 32-bit signed
  value. The library is not part of the repository: \<open>distrib a b g\<close> stands for one
  draw from the distribution on \<open>[a, b]\<close> with the engine in state \<open>g\<close>, and gives
  the number drawn and the engine's next state. The library requires \<open>a \<le> b\<close>; the code
  makes no check, and reads \<open>element_set[random_index]\<close> unchecked.
\<close>

definition random_index_bound :: "('k, 'v, 'g) RandomAccessUnorderedMap \<Rightarrow> int" where
  "random_index_bound m =
     sint (word_of_nat (size_minus_1 (length (element_set m))) :: 32 word)"

definition random_key ::
  "(int \<Rightarrow> int \<Rightarrow> 'g \<Rightarrow> int \<times> 'g) \<Rightarrow> ('k, 'v, 'g) RandomAccessUnorderedMap
     \<Rightarrow> ('k \<times> ('k, 'v, 'g) RandomAccessUnorderedMap) outcome" where
  "random_key distrib m =
     (let b = random_index_bound m in
      if b < 0 then Undefined
      else (case distrib 0 b (random_number_generator m) of
              (random_index, g') \<Rightarrow>
                if 0 \<le> random_index \<and> nat random_index < length (element_set m)
                then Returns (key (element_set m ! nat random_index),
                              m\<lparr>random_number_generator := g'\<rparr>)
                else Undefined))"

text \<open>
  Modelled from the spec: \<open>size()\<close>. The class defines no such member; the spec
  gives \<open>size()\<close> as the number of live entries, \<open>len(S)\<close>.
\<close>

definition size_op :: "('k, 'v, 'g) RandomAccessUnorderedMap \<Rightarrow> nat" where
  "size_op m = length (element_set m)"

subsection \<open>Sequences of calls\<close>

datatype ('k, 'v) call = Insert 'k 'v | Remove 'k | Find 'k

fun call_op ::
  "('k, 'v, 'g) RandomAccessUnorderedMap \<Rightarrow> ('k, 'v) call
     \<Rightarrow> ('k, 'v, 'g) RandomAccessUnorderedMap outcome" where
  "call_op m (Insert k v) = insert_op m k v"
| "call_op m (Remove k) = remove_op m k"
| "call_op m (Find k) =
     (case find_op m k of Returns r \<Rightarrow> Returns m | Aborts \<Rightarrow> Aborts | Undefined \<Rightarrow> Undefined)"

fun run ::
  "('k, 'v, 'g) RandomAccessUnorderedMap \<Rightarrow> ('k, 'v) call list
     \<Rightarrow> ('k, 'v, 'g) RandomAccessUnorderedMap outcome" where
  "run m [] = Returns m"
| "run m (c # cs) =
     (case call_op m c of Returns m' \<Rightarrow> run m' cs | Aborts \<Rightarrow> Aborts | Undefined \<Rightarrow> Undefined)"

text \<open>The call \<open>insert(k, v)\<close> followed by \<open>find(k)\<close>: what the lookup gives.\<close>

definition find_after_insert ::
  "('k, 'v, 'g) RandomAccessUnorderedMap \<Rightarrow> 'k \<Rightarrow> 'v \<Rightarrow> 'v option outcome" where
  "find_after_insert m k v =
     (case insert_op m k v of
        Returns m' \<Rightarrow> find_op m' k
      | Aborts \<Rightarrow> Aborts
      | Undefined \<Rightarrow> Undefined)"

text \<open>
  \<open>within_capacity m cs\<close>: running the calls \<open>cs\<close> from \<open>m\<close>, no state produced
  holds more than \<open>2^32\<close> entries, the number of slots a \<open>uint32_t\<close> can name.
\<close>

fun within_capacity :: "('k, 'v, 'g) RandomAccessUnorderedMap \<Rightarrow> ('k, 'v) call list \<Rightarrow> bool" where
  "within_capacity m [] = True"
| "within_capacity m (c # cs) =
     (case call_op m c of
        Returns m' \<Rightarrow> length (element_set m') \<le> 2 ^ 32 \<and> within_capacity m' cs
      | Aborts \<Rightarrow> True
      | Undefined \<Rightarrow> True)"

subsection \<open>The invariant and the map the container stands for\<close>

text \<open>
  The invariant in the spec's words: every key \<open>k\<close> of the position index with
  \<open>P[k] = i\<close> has \<open>i\<close> a valid slot with \<open>S[i].key = k\<close>, and \<open>len(P) = len(S)\<close>.
\<close>

definition invariant :: "('k, 'v, 'g) RandomAccessUnorderedMap \<Rightarrow> bool" where
  "invariant m \<longleftrightarrow>
     (\<forall>k i. index_map m k = Some i \<longrightarrow>
        unat i < length (element_set m) \<and> key (element_set m ! unat i) = k) \<and>
     card (dom (index_map m)) = length (element_set m)"

text \<open>
  \<open>at_tail m k v\<close>: the last slot of the dense store holds \<open>(k, v)\<close>, the position
  index names that slot for \<open>k\<close>, and no other slot holds \<open>k\<close>.
\<close>

definition at_tail :: "('k, 'v, 'g) RandomAccessUnorderedMap \<Rightarrow> 'k \<Rightarrow> 'v \<Rightarrow> bool" where
  "at_tail m k v \<longleftrightarrow>
     element_set m \<noteq> [] \<and>
     last (element_set m) = \<lparr>key = k, elem_value = v\<rparr> \<and>
     (\<exists>i. index_map m k = Some i \<and> Suc (unat i) = length (element_set m)) \<and>
     (\<forall>j < length (element_set m). key (element_set m ! j) = k \<longrightarrow> Suc j = length (element_set m))"

text \<open>The key-value map a state stands for: what \<open>find\<close> reads.\<close>

definition contents :: "('k, 'v, 'g) RandomAccessUnorderedMap \<Rightarrow> 'k \<rightharpoonup> 'v" where
  "contents m k =
     (case index_map m k of
        None \<Rightarrow> None
      | Some i \<Rightarrow> Some (elem_value (element_set m ! unat i)))"

text \<open>
  The lookup result the spec's words give after a sequence of calls: an
  \<open>insert(k, v)\<close> makes it \<open>v\<close>, a \<open>remove(k)\<close> makes it not-found, every other
  call leaves it; before any call it is not-found.
\<close>

fun after_call :: "'k \<Rightarrow> 'v option \<Rightarrow> ('k, 'v) call \<Rightarrow> 'v option" where
  "after_call k r (Insert k' v) = (if k' = k then Some v else r)"
| "after_call k r (Remove k') = (if k' = k then None else r)"
| "after_call k r (Find k') = r"

definition expected_find :: "('k, 'v) call list \<Rightarrow> 'k \<Rightarrow> 'v option" where
  "expected_find cs k = foldl (after_call k) None cs"

subsection \<open>Concrete states and inputs\<close>

text \<open>
  The container of \<open>main\<close> after its first three inserts, with \<open>std::string\<close> keys
  and values.
\<close>

definition example_map :: "(string, string, unit) RandomAccessUnorderedMap" where
  "example_map =
     \<lparr>element_set = [\<lparr>key = ''hello'', elem_value = ''world''\<rparr>,
                     \<lparr>key = ''hello2'', elem_value = ''world2''\<rparr>,
                     \<lparr>key = ''hello3'', elem_value = ''world3''\<rparr>],
      index_map = [''hello'' \<mapsto> 0, ''hello2'' \<mapsto> 1, ''hello3'' \<mapsto> 2],
      random_number_generator = ()\<rparr>"

text \<open>
  \<open>distinct_inserts n\<close>: the calls \<open>insert(0, 0)\<close>, \<open>insert(1, 1)\<close>, ...,
  \<open>insert(n - 1, n - 1)\<close> on a container with \<open>uint64_t\<close> keys and values, and
  \<open>filled n seed\<close>: the state they lead to from the new container.
\<close>

definition distinct_inserts :: "nat \<Rightarrow> (uint64_t, uint64_t) call list" where
  "distinct_inserts n = map (\<lambda>i. Insert (word_of_nat i) (word_of_nat i)) [0..<n]"

definition filled :: "nat \<Rightarrow> 'g \<Rightarrow> (uint64_t, uint64_t, 'g) RandomAccessUnorderedMap" where
  "filled n seed =
     \<lparr>element_set = map (\<lambda>i. \<lparr>key = word_of_nat i, elem_value = word_of_nat i\<rparr>) [0..<n],
      index_map = (\<lambda>k. if unat k < n then Some (ucast k) else None),
      random_number_generator = seed\<rparr>"

text \<open>
  A stand-in for the library's distribution whose draw is known: \<open>draws r\<close> gives
  \<open>r\<close> and leaves the engine as it is.
\<close>

definition draws :: "int \<Rightarrow> int \<Rightarrow> int \<Rightarrow> 'g \<Rightarrow> int \<times> 'g" where
  "draws r a b g = (r, g)"

section \<open>Modular arithmetic (\<^verbatim>\<open>src/modular_arithmetic_main.cpp\<close>)\<close>

text \<open>\<open>mod_add\<close>: the three assertions, then the source's branches on \<open>uint64_t\<close>.\<close>

definition mod_add :: "uint64_t \<Rightarrow> uint64_t \<Rightarrow> uint64_t \<Rightarrow> uint64_t outcome" where
  "mod_add a b n =
     (if \<not> a < n then Aborts
      else if \<not> b < n then Aborts
      else if \<not> n > 0 then Aborts
      else if b = 0 then Returns a
      else (let b' = n - b in
            if a \<ge> b' then Returns (a - b')
            else Returns (n - b' + a)))"

text \<open>The \<open>while (b)\<close> loop of \<open>mod_multiply\<close>; \<open>b >>= 1\<close> is \<open>drop_bit 1\<close>.\<close>

function mod_multiply_loop ::
  "uint64_t \<Rightarrow> uint64_t \<Rightarrow> uint64_t \<Rightarrow> uint64_t \<Rightarrow> uint64_t outcome" where
  "mod_multiply_loop product a b n =
     (if b \<noteq> 0 then
        (case (if b AND 1 \<noteq> 0 then mod_add product a n else Returns product) of
           Returns product' \<Rightarrow>
             (case mod_add a a n of
                Returns a' \<Rightarrow> mod_multiply_loop product' a' (drop_bit 1 b) n
              | Aborts \<Rightarrow> Aborts
              | Undefined \<Rightarrow> Undefined)
         | Aborts \<Rightarrow> Aborts
         | Undefined \<Rightarrow> Undefined)
      else Returns product)"
  by pat_completeness auto
termination
proof (relation "measure (\<lambda>(product, a, b, n). unat b)")
  show "wf (measure (\<lambda>(product, a, b, n). unat b))"
    by simp
next
  fix product a b n :: uint64_t
  assume "b \<noteq> 0"
  then have "0 < unat b"
    by (simp add: unat_gt_0)
  moreover have "unat (drop_bit 1 b) = unat b div 2"
    by (simp add: drop_bit_eq_div unat_div)
  ultimately have "unat (drop_bit 1 b) < unat b"
    by simp
  then show "((x, y, drop_bit 1 b, n), (product, a, b, n))
               \<in> measure (\<lambda>(product, a, b, n). unat b)" for x y
    by simp
qed

definition mod_multiply :: "uint64_t \<Rightarrow> uint64_t \<Rightarrow> uint64_t \<Rightarrow> uint64_t outcome" where
  "mod_multiply a b n =
     (if \<not> a < n then Aborts
      else if \<not> b < n then Aborts
      else if \<not> n > 0 then Aborts
      else (case (if b > a then (b, a) else (a, b)) of
              (a, b) \<Rightarrow> mod_multiply_loop 0 a b n))"

section \<open>RandomAccessUnorderedMap: proofs\<close>

lemma size_minus_1_pos: "0 < n \<Longrightarrow> n \<le> 2 ^ 64 \<Longrightarrow> size_minus_1 n = n - 1"
proof -
  assume a: "0 < n" "n \<le> 2 ^ 64"
  have "n + (2 ^ 64 - 1) = (n - 1) + 1 * (2 ^ 64 :: nat)"
    using a by simp
  then have "size_minus_1 n = ((n - 1) + 1 * 2 ^ 64) mod 2 ^ 64"
    by (simp only: size_minus_1_def)
  also have "\<dots> = (n - 1) mod 2 ^ 64"
    by (simp only: mod_mult_self1)
  also have "\<dots> = n - 1"
    using a by simp
  finally show ?thesis .
qed

lemma size_minus_1_0: "size_minus_1 0 = 2 ^ 64 - 1"
  by (simp add: size_minus_1_def)

lemma unat_u32_less: "unat (i :: uint32_t) < 2 ^ 32"
  using unsigned_less [of i] by simp

lemma unat_of_nat_u32: "j < 2 ^ 32 \<Longrightarrow> unat (word_of_nat j :: uint32_t) = j"
  by (simp add: unat_of_nat)

lemma invariant_slots:
  "invariant m \<longleftrightarrow>
     length (element_set m) \<le> 2 ^ 32 \<and>
     (\<forall>j < length (element_set m). index_map m (key (element_set m ! j)) = Some (word_of_nat j)) \<and>
     (\<forall>k i. index_map m k = Some i \<longrightarrow> (\<exists>j < length (element_set m). key (element_set m ! j) = k))"
  (is "?inv \<longleftrightarrow> ?len \<and> ?slots \<and> ?keys")
proof
  assume inv: ?inv
  define S where "S = element_set m"
  define P where "P = index_map m"
  define n where "n = length S"
  define f where "f k = unat (the (P k))" for k
  from inv have valid: "\<And>k i. P k = Some i \<Longrightarrow> unat i < n \<and> key (S ! unat i) = k"
    and card: "card (dom P) = n"
    by (simp_all add: invariant_def S_def P_def n_def)
  have f_key: "key (S ! f k) = k" and f_lt: "f k < n" if "k \<in> dom P" for k
    using that valid by (auto simp: f_def)
  have inj: "inj_on f (dom P)"
    by (rule inj_onI) (metis f_key)
  have sub: "f ` dom P \<subseteq> {..<n}"
    using f_lt by auto
  then have fin_img: "finite (f ` dom P)"
    by (rule finite_subset) simp
  have "card (f ` dom P) = n"
    using card inj by (simp add: card_image)
  with sub have img: "f ` dom P = {..<n}"
    by (simp add: card_subset_eq)
  have slot: "P (key (S ! j)) = Some (word_of_nat j) \<and> j < 2 ^ 32" if "j < n" for j
  proof -
    from that img obtain k where k: "k \<in> dom P" "f k = j"
      by (metis imageE lessThan_iff)
    then obtain i where i: "P k = Some i" by auto
    with k have "unat i = j" by (simp add: f_def)
    moreover from k f_key have "key (S ! j) = k" by auto
    ultimately show ?thesis using i unat_u32_less [of i] by auto
  qed
  have ?len
  proof (rule ccontr)
    assume "\<not> ?len"
    then have "2 ^ 32 < n" by (simp add: n_def S_def)
    with slot [of "2 ^ 32"] show False by simp
  qed
  moreover have ?slots
    using slot by (simp add: S_def P_def n_def)
  moreover have ?keys
    using valid by (auto simp: S_def P_def n_def)
  ultimately show "?len \<and> ?slots \<and> ?keys" by blast
next
  assume r: "?len \<and> ?slots \<and> ?keys"
  define S where "S = element_set m"
  define P where "P = index_map m"
  define n where "n = length S"
  from r have len: "n \<le> 2 ^ 32"
    and slots: "\<And>j. j < n \<Longrightarrow> P (key (S ! j)) = Some (word_of_nat j)"
    and keys: "\<And>k i. P k = Some i \<Longrightarrow> \<exists>j<n. key (S ! j) = k"
    by (simp_all add: S_def P_def n_def)
  have valid: "unat i < n \<and> key (S ! unat i) = k" if "P k = Some i" for k i
  proof -
    from keys [OF that] obtain j where j: "j < n" "key (S ! j) = k" by blast
    with slots [of j] that have "i = word_of_nat j" by simp
    with j len show ?thesis by (simp add: unat_of_nat_u32)
  qed
  have dom: "dom P = (\<lambda>j. key (S ! j)) ` {..<n}"
    using keys slots by (auto simp: image_iff) 
  have "inj_on (\<lambda>j. key (S ! j)) {..<n}"
  proof (rule inj_onI)
    fix j j' assume a: "j \<in> {..<n}" "j' \<in> {..<n}" "key (S ! j) = key (S ! j')"
    then have "(word_of_nat j :: uint32_t) = word_of_nat j'"
      using slots [of j] slots [of j'] by simp
    then have "unat (word_of_nat j :: uint32_t) = unat (word_of_nat j' :: uint32_t)" by simp
    with a len show "j = j'" by (simp add: unat_of_nat_u32)
  qed
  then have "card (dom P) = n"
    by (simp add: dom card_image)
  with valid show ?inv
    by (simp add: invariant_def S_def P_def n_def)
qed


lemma invariant_valid:
  "invariant m \<Longrightarrow> index_map m k = Some i \<Longrightarrow>
     unat i < length (element_set m) \<and> key (element_set m ! unat i) = k"
  by (simp add: invariant_def)

lemma invariant_length: "invariant m \<Longrightarrow> length (element_set m) \<le> 2 ^ 32"
  by (simp add: invariant_slots)

lemma invariant_slot:
  "invariant m \<Longrightarrow> j < length (element_set m) \<Longrightarrow>
     index_map m (key (element_set m ! j)) = Some (word_of_nat j)"
  by (simp add: invariant_slots)

lemma invariant_key_inj:
  assumes "invariant m" "j < length (element_set m)" "j' < length (element_set m)"
    and "key (element_set m ! j) = key (element_set m ! j')"
  shows "j = j'"
proof -
  from assms invariant_slot [OF assms(1), of j] invariant_slot [OF assms(1), of j']
  have "unat (word_of_nat j :: uint32_t) = unat (word_of_nat j' :: uint32_t)"
    by simp
  moreover have "j < 2 ^ 32" "j' < 2 ^ 32"
    using assms(2,3) invariant_length [OF assms(1)] by simp_all
  ultimately show ?thesis
    by (simp add: unat_of_nat_u32)
qed

lemma size_minus_1_invariant:
  "invariant m \<Longrightarrow> element_set m \<noteq> [] \<Longrightarrow>
     size_minus_1 (length (element_set m)) = length (element_set m) - 1"
  using invariant_length [of m] by (simp add: size_minus_1_pos)

lemma remove_absent: "index_map m k = None \<Longrightarrow> remove_op m k = Returns m"
  by (simp add: remove_op_def find_index_def)

lemma remove_last:
  assumes "invariant m" "index_map m k = Some i" "unat i = length (element_set m) - 1"
  shows "remove_op m k =
           Returns (m\<lparr>element_set := butlast (element_set m),
                      index_map := (index_map m)(k := None)\<rparr>)"
proof -
  from invariant_valid [OF assms(1,2)] have "element_set m \<noteq> []"
    by auto
  with assms show ?thesis
    by (simp add: remove_op_def find_index_def Let_def size_minus_1_invariant)
qed

lemma remove_middle:
  assumes "invariant m" "index_map m k = Some i" "unat i \<noteq> length (element_set m) - 1"
  shows "remove_op m k =
           Returns (m\<lparr>element_set := (butlast (element_set m))[unat i := last (element_set m)],
                      index_map := ((index_map m)(key (last (element_set m)) \<mapsto> i))(k := None)\<rparr>)"
proof -
  define S where "S = element_set m"
  from invariant_valid [OF assms(1,2)] have i: "unat i < length S"
    by (simp add: S_def)
  then have ne: "S \<noteq> []"
    by auto
  have sm: "size_minus_1 (length S) = length S - 1"
    using size_minus_1_invariant [OF assms(1)] ne by (simp add: S_def)
  have i': "unat i < length S - 1"
    using i assms(3) by (simp add: S_def)
  have "butlast (S[unat i := S ! (length S - 1), length S - 1 := S ! unat i])
          = (butlast S)[unat i := last S]"
    using i' ne by (simp add: butlast_list_update last_conv_nth)
  moreover have "(butlast S)[unat i := last S] ! unat i = last S"
    using i' by simp
  ultimately show ?thesis
    using assms(2,3) i i' sm
    by (simp add: remove_op_def find_index_def Let_def S_def [symmetric])
qed


lemma remove_last_invariant:
  assumes inv: "invariant m" and k: "index_map m k = Some i"
    and last: "unat i = length (element_set m) - 1"
  defines "m' \<equiv> m\<lparr>element_set := butlast (element_set m), index_map := (index_map m)(k := None)\<rparr>"
  shows "invariant m'" and "contents m' = (contents m)(k := None)"
proof -
  define S where "S = element_set m"
  define P where "P = index_map m"
  define n where "n = length S"
  note valid = invariant_valid [OF inv, folded S_def P_def n_def]
  note slot = invariant_slot [OF inv, folded S_def P_def n_def]
  note key_inj = invariant_key_inj [OF inv, folded S_def P_def n_def]
  from valid [OF k [folded P_def]] last have n: "0 < n" and kl: "key (S ! (n - 1)) = k"
    by (auto simp: S_def n_def)
  have other: "unat i' < n - 1 \<and> key (S ! unat i') = k'" if "P k' = Some i'" "k' \<noteq> k" for k' i'
  proof -
    from valid [OF that(1)] have v: "unat i' < n" "key (S ! unat i') = k'"
      by simp_all
    with kl that(2) have "unat i' \<noteq> n - 1"
      by auto
    with v show ?thesis
      by simp
  qed
  have S': "element_set m' = butlast S" and P': "index_map m' = P(k := None)"
    by (simp_all add: m'_def S_def P_def)
  show "invariant m'"
    unfolding invariant_slots S' P'
  proof (intro conjI allI impI)
    show "length (butlast S) \<le> 2 ^ 32"
      using invariant_length [OF inv] by (simp add: S_def)
  next
    fix j assume j: "j < length (butlast S)"
    then have jn: "j < n - 1" by (simp add: n_def)
    then have "j < n" "n - 1 < n" "j \<noteq> n - 1"
      using n by simp_all
    then have "key (S ! j) \<noteq> k"
      using key_inj [of j "n - 1"] kl by auto
    with jn slot [of j] show "(P(k := None)) (key (butlast S ! j)) = Some (word_of_nat j)"
      by (simp add: nth_butlast n_def)
  next
    fix k' i' assume "(P(k := None)) k' = Some i'"
    then have "P k' = Some i'" "k' \<noteq> k"
      by (auto split: if_splits)
    from other [OF this] show "\<exists>j<length (butlast S). key (butlast S ! j) = k'"
      by (auto simp: nth_butlast n_def intro!: exI [of _ "unat i'"])
  qed
  show "contents m' = (contents m)(k := None)"
  proof
    fix k'
    show "contents m' k' = ((contents m)(k := None)) k'"
    proof (cases "k' = k")
      case True
      then show ?thesis
        by (simp add: contents_def P')
    next
      case False
      show ?thesis
      proof (cases "P k'")
        case None
        with False show ?thesis
          by (simp add: contents_def P' P_def [symmetric])
      next
        case (Some i')
        from other [OF Some False] Some False show ?thesis
          by (simp add: contents_def P' S' P_def [symmetric] S_def [symmetric] nth_butlast n_def)
      qed
    qed
  qed
qed

lemma remove_middle_invariant:
  assumes inv: "invariant m" and k: "index_map m k = Some i"
    and mid: "unat i \<noteq> length (element_set m) - 1"
  defines "m' \<equiv> m\<lparr>element_set := (butlast (element_set m))[unat i := last (element_set m)],
                    index_map := ((index_map m)(key (last (element_set m)) \<mapsto> i))(k := None)\<rparr>"
  shows "invariant m'" and "contents m' = (contents m)(k := None)"
proof -
  define S where "S = element_set m"
  define P where "P = index_map m"
  define n where "n = length S"
  define lk where "lk = key (last S)"
  define S' where "S' = (butlast S)[unat i := last S]"
  note valid = invariant_valid [OF inv, folded S_def P_def n_def]
  note slot = invariant_slot [OF inv, folded S_def P_def n_def]
  note key_inj = invariant_key_inj [OF inv, folded S_def P_def n_def]
  from valid [OF k [folded P_def]] mid have i: "unat i < n - 1" and ki: "key (S ! unat i) = k"
    by (auto simp: S_def n_def)
  then have n: "0 < n" and ne: "S \<noteq> []"
    by (auto simp: n_def)
  have lk: "lk = key (S ! (n - 1))"
    using ne by (simp add: lk_def last_conv_nth n_def)
  have in_range: "unat i < n" "n - 1 < n" "unat i \<noteq> n - 1"
    using i n by simp_all
  have lk_k: "lk \<noteq> k"
    using key_inj [of "n - 1" "unat i"] in_range ki lk by auto
  have P_lk: "P lk = Some (word_of_nat (n - 1))"
    using slot [of "n - 1"] n lk by simp
  have len': "length S' = n - 1"
    by (simp add: S'_def n_def)
  have S'_i: "S' ! unat i = last S"
    using i by (simp add: S'_def n_def)
  have S'_j: "S' ! j = S ! j" if "j < n - 1" "j \<noteq> unat i" for j
    using that by (simp add: S'_def n_def nth_butlast)
  have other: "unat i' < n - 1 \<and> unat i' \<noteq> unat i \<and> key (S ! unat i') = k'"
    if "P k' = Some i'" "k' \<noteq> k" "k' \<noteq> lk" for k' i'
  proof -
    from valid [OF that(1)] have v: "unat i' < n" "key (S ! unat i') = k'"
      by simp_all
    with lk ki that(2,3) have "unat i' \<noteq> n - 1" "unat i' \<noteq> unat i"
      by auto
    with v show ?thesis
      by simp
  qed
  have eS: "element_set m' = S'" and eP: "index_map m' = (P(lk \<mapsto> i))(k := None)"
    by (simp_all add: m'_def S_def P_def S'_def lk_def)
  show "invariant m'"
    unfolding invariant_slots eS eP
  proof (intro conjI allI impI)
    show "length S' \<le> 2 ^ 32"
      using invariant_length [OF inv] by (simp add: len' n_def S_def)
  next
    fix j assume "j < length S'"
    then have jn: "j < n - 1" by (simp add: len')
    show "((P(lk \<mapsto> i))(k := None)) (key (S' ! j)) = Some (word_of_nat j)"
    proof (cases "j = unat i")
      case True
      then show ?thesis
        using lk_k by (simp add: S'_i lk_def [symmetric])
    next
      case False
      from jn have jr: "j < n" "j \<noteq> n - 1"
        by simp_all
      have "key (S ! j) \<noteq> lk"
        using key_inj [of j "n - 1"] lk jr in_range by auto
      moreover have "key (S ! j) \<noteq> k"
        using key_inj [of j "unat i"] ki jr in_range False by auto
      ultimately show ?thesis
        using slot [of j] jn by (simp add: S'_j [OF jn False])
    qed
  next
    fix k' i' assume a: "((P(lk \<mapsto> i))(k := None)) k' = Some i'"
    then have k'k: "k' \<noteq> k"
      by (auto split: if_splits)
    show "\<exists>j<length S'. key (S' ! j) = k'"
    proof (cases "k' = lk")
      case True
      then show ?thesis
        using i by (auto simp: len' S'_i lk_def intro!: exI [of _ "unat i"])
    next
      case False
      with a k'k have "P k' = Some i'"
        by simp
      from other [OF this k'k False] show ?thesis
        by (auto simp: len' S'_j intro!: exI [of _ "unat i'"])
    qed
  qed
  show "contents m' = (contents m)(k := None)"
  proof
    fix k'
    show "contents m' k' = ((contents m)(k := None)) k'"
    proof (cases "k' = k")
      case True
      then show ?thesis
        by (simp add: contents_def eP)
    next
      case k'k: False
      show ?thesis
      proof (cases "k' = lk")
        case True
        have "unat (word_of_nat (n - 1) :: uint32_t) = n - 1"
          using invariant_length [OF inv] n by (simp add: unat_of_nat_u32 n_def S_def)
        then show ?thesis
          using True lk_k P_lk ne
          by (simp add: contents_def eP eS S'_i P_def [symmetric] S_def [symmetric]
              last_conv_nth n_def)
      next
        case False
        show ?thesis
        proof (cases "P k'")
          case None
          with False k'k show ?thesis
            by (simp add: contents_def eP P_def [symmetric])
        next
          case (Some i')
          from other [OF Some k'k False] Some False k'k show ?thesis
            by (simp add: contents_def eP eS P_def [symmetric] S_def [symmetric] S'_j)
        qed
      qed
    qed
  qed
qed


lemma find_contents: "invariant m \<Longrightarrow> find_op m k = Returns (contents m k)"
  by (auto simp: find_op_def find_index_def contents_def split: option.splits
      dest: invariant_valid)

lemma remove_op_invariant:
  assumes inv: "invariant m"
  shows "\<exists>m'. remove_op m k = Returns m' \<and> invariant m' \<and>
           contents m' = (contents m)(k := None) \<and> index_map m' k = None \<and>
           length (element_set m') =
             (if index_map m k = None then length (element_set m) else length (element_set m) - 1) \<and>
           random_number_generator m' = random_number_generator m"
proof (cases "index_map m k")
  case None
  then have "contents m k = None"
    by (simp add: contents_def)
  then have "(contents m)(k := None) = contents m"
    by (simp add: fun_upd_idem)
  with None inv show ?thesis
    by (simp add: remove_absent)
next
  case (Some i)
  show ?thesis
  proof (cases "unat i = length (element_set m) - 1")
    case True
    from remove_last [OF inv Some True] remove_last_invariant [OF inv Some True] Some
    show ?thesis
      by simp
  next
    case False
    from remove_middle [OF inv Some False] remove_middle_invariant [OF inv Some False] Some
    show ?thesis
      by simp
  qed
qed

lemma append_invariant:
  fixes v :: 'v
  assumes inv: "invariant m" and k: "index_map m k = None"
    and len: "length (element_set m) < 2 ^ 32"
  defines "m' \<equiv> m\<lparr>element_set := element_set m @ [\<lparr>key = k, elem_value = v\<rparr>],
                    index_map := (index_map m)(k \<mapsto> word_of_nat (length (element_set m)))\<rparr>"
  shows "invariant m'" and "contents m' = (contents m)(k \<mapsto> v)"
proof -
  define S where "S = element_set m"
  define P where "P = index_map m"
  define n where "n = length S"
  note valid = invariant_valid [OF inv, folded S_def P_def n_def]
  note slot = invariant_slot [OF inv, folded S_def P_def n_def]
  have eS: "element_set m' = S @ [\<lparr>key = k, elem_value = v\<rparr>]"
    and eP: "index_map m' = P(k \<mapsto> word_of_nat n)"
    by (simp_all add: m'_def S_def P_def n_def)
  have nk: "key (S ! j) \<noteq> k" if "j < n" for j
    using slot [OF that] k by (auto simp: P_def)
  have un: "unat (word_of_nat n :: uint32_t) = n"
    using len by (simp add: unat_of_nat_u32 n_def S_def)
  show "invariant m'"
    unfolding invariant_slots eS eP
  proof (intro conjI allI impI)
    show "length (S @ [\<lparr>key = k, elem_value = v\<rparr>]) \<le> 2 ^ 32"
      using len by (simp add: S_def)
  next
    fix j assume "j < length (S @ [\<lparr>key = k, elem_value = v\<rparr>])"
    then have "j = n \<or> j < n"
      by (auto simp: n_def)
    then consider "j = n" | "j < n"
      by blast
    then show "(P(k \<mapsto> word_of_nat n)) (key ((S @ [\<lparr>key = k, elem_value = v\<rparr>]) ! j))
                 = Some (word_of_nat j)"
    proof cases
      case 1
      then show ?thesis
        by (simp add: n_def)
    next
      case 2
      with nk [OF 2] slot [OF 2] show ?thesis
        by (simp add: nth_append n_def)
    qed
  next
    fix k' i' assume a: "(P(k \<mapsto> word_of_nat n)) k' = Some i'"
    show "\<exists>j<length (S @ [\<lparr>key = k, elem_value = v\<rparr>]).
            key ((S @ [\<lparr>key = k, elem_value = v\<rparr>]) ! j) = k'"
    proof (cases "k' = k")
      case True
      then show ?thesis
        by (auto intro!: exI [of _ n] simp: n_def)
    next
      case False
      with a have "P k' = Some i'"
        by simp
      from valid [OF this] show ?thesis
        by (auto intro!: exI [of _ "unat i'"] simp: nth_append n_def)
    qed
  qed
  show "contents m' = (contents m)(k \<mapsto> v)"
  proof
    fix k'
    show "contents m' k' = ((contents m)(k \<mapsto> v)) k'"
    proof (cases "k' = k")
      case True
      then show ?thesis
        by (simp add: contents_def eP eS un) (simp add: n_def)
    next
      case False
      show ?thesis
      proof (cases "P k'")
        case None
        with False show ?thesis
          by (simp add: contents_def eP P_def [symmetric])
      next
        case (Some i')
        from valid [OF Some] Some False show ?thesis
          by (simp add: contents_def eP eS P_def [symmetric] S_def [symmetric] nth_append n_def)
      qed
    qed
  qed
qed

lemma insert_op_invariant:
  assumes inv: "invariant m"
    and cap: "index_map m k \<noteq> None \<or> length (element_set m) < 2 ^ 32"
  shows "\<exists>m'. insert_op m k v = Returns m' \<and> invariant m' \<and>
           contents m' = (contents m)(k \<mapsto> v) \<and>
           length (element_set m') =
             (if index_map m k = None then length (element_set m) + 1 else length (element_set m)) \<and>
           index_map m' k = Some (word_of_nat (length (element_set m') - 1)) \<and>
           element_set m' ! (length (element_set m') - 1) = \<lparr>key = k, elem_value = v\<rparr> \<and>
           random_number_generator m' = random_number_generator m"
proof -
  from remove_op_invariant [OF inv, of k] obtain m1 where
    rm: "remove_op m k = Returns m1" and inv1: "invariant m1"
    and c1: "contents m1 = (contents m)(k := None)" and k1: "index_map m1 k = None"
    and len1: "length (element_set m1) =
                 (if index_map m k = None then length (element_set m) else length (element_set m) - 1)"
    and g1: "random_number_generator m1 = random_number_generator m"
    by blast
  have pos: "0 < length (element_set m)" if "index_map m k \<noteq> None"
    using that invariant_valid [OF inv, of k] by auto
  have lt: "length (element_set m1) < 2 ^ 32"
  proof (cases "index_map m k")
    case None
    with cap len1 show ?thesis by simp
  next
    case (Some i)
    with pos invariant_length [OF inv] len1 show ?thesis by simp
  qed
  have sm: "size_minus_1 (Suc (length (element_set m1))) = length (element_set m1)"
    using lt by (simp add: size_minus_1_pos)
  define m' where "m' = m1\<lparr>element_set := element_set m1 @ [\<lparr>key = k, elem_value = v\<rparr>],
      index_map := (index_map m1)(k \<mapsto> word_of_nat (length (element_set m1)))\<rparr>"
  have ins: "insert_op m k v = Returns m'"
    by (simp add: insert_op_def rm k1 Let_def sm m'_def)
  from append_invariant [OF inv1 k1 lt, of v]
  have "invariant m'" "contents m' = (contents m1)(k \<mapsto> v)"
    by (simp_all add: m'_def)
  moreover have "length (element_set m') =
      (if index_map m k = None then length (element_set m) + 1 else length (element_set m))"
    using len1 pos by (auto simp: m'_def)
  moreover have "index_map m' k = Some (word_of_nat (length (element_set m') - 1))"
    "element_set m' ! (length (element_set m') - 1) = \<lparr>key = k, elem_value = v\<rparr>"
    "random_number_generator m' = random_number_generator m"
    by (simp_all add: m'_def g1)
  ultimately show ?thesis
    using ins c1 by simp
qed

lemma example_map_run:
  "run (RandomAccessUnorderedMap_new ())
     [Insert ''hello'' ''world'', Insert ''hello2'' ''world2'', Insert ''hello3'' ''world3'']
   = Returns example_map"
  by (simp add: example_map_def RandomAccessUnorderedMap_new_def insert_op_def remove_op_def
      find_index_def size_minus_1_def Let_def fun_upd_twist)

lemma example_map_invariant: "invariant example_map"
  by (simp add: invariant_def example_map_def)


lemma invariant_empty_index:
  assumes "invariant m" "element_set m = []"
  shows "index_map m = Map.empty"
proof
  fix k
  show "index_map m k = None"
    using invariant_valid [OF assms(1), of k] assms(2) by (cases "index_map m k") auto
qed

lemma insert_op_length:
  assumes inv: "invariant m"
  shows "\<exists>m'. insert_op m k v = Returns m' \<and>
           length (element_set m') =
             (if index_map m k = None then length (element_set m) + 1 else length (element_set m))"
proof -
  from remove_op_invariant [OF inv, of k] obtain m1 where
    rm: "remove_op m k = Returns m1"
    and len1: "length (element_set m1) =
                 (if index_map m k = None then length (element_set m) else length (element_set m) - 1)"
    by blast
  have "0 < length (element_set m)" if "index_map m k \<noteq> None"
    using that invariant_valid [OF inv, of k] by auto
  with len1 show ?thesis
    by (auto simp: insert_op_def rm Let_def)
qed

text \<open>
  C3. In a state satisfying the invariant, \<open>remove(k)\<close> of a key held at slot \<open>i\<close>
  returns, erases \<open>k\<close> from the position index and shortens the dense store by one.
  When \<open>i\<close> is the last slot the last entry is dropped and every other key keeps
  its slot. Otherwise the entry of the last slot is moved into slot \<open>i\<close>, its key
  now maps to \<open>i\<close>, and every key other than these two keeps its slot. Removing the
  only entry leaves the dense store and the position index empty. The invariant
  holds afterwards.
\<close>

theorem remove_swap_and_pop:
  assumes "invariant m" "index_map m k = Some i"
  shows "\<exists>m'. remove_op m k = Returns m' \<and> invariant m' \<and> index_map m' k = None \<and>
           Suc (length (element_set m')) = length (element_set m) \<and>
           (unat i = length (element_set m) - 1 \<longrightarrow>
              element_set m' = butlast (element_set m) \<and>
              (\<forall>k'. k' \<noteq> k \<longrightarrow> index_map m' k' = index_map m k')) \<and>
           (unat i \<noteq> length (element_set m) - 1 \<longrightarrow>
              element_set m' = (butlast (element_set m))[unat i := last (element_set m)] \<and>
              index_map m' (key (last (element_set m))) = Some i \<and>
              (\<forall>k'. k' \<noteq> k \<longrightarrow> k' \<noteq> key (last (element_set m)) \<longrightarrow>
                 index_map m' k' = index_map m k')) \<and>
           (length (element_set m) = 1 \<longrightarrow> element_set m' = [] \<and> index_map m' = Map.empty)"
proof -
  define S where "S = element_set m"
  from invariant_valid [OF assms] have i: "unat i < length S" and ki: "key (S ! unat i) = k"
    by (simp_all add: S_def)
  show ?thesis
  proof (cases "unat i = length S - 1")
    case True
    define m' where "m' = m\<lparr>element_set := butlast S, index_map := (index_map m)(k := None)\<rparr>"
    have rm: "remove_op m k = Returns m'"
      using remove_last [OF assms] True by (simp add: S_def m'_def)
    have inv': "invariant m'"
      using remove_last_invariant(1) [OF assms] True by (simp add: S_def m'_def)
    have "index_map m' = Map.empty" if "length S = 1"
    proof -
      from that have "element_set m' = []"
        by (cases S) (simp_all add: m'_def)
      with inv' show ?thesis
        by (rule invariant_empty_index)
    qed
    moreover have "element_set m' = []" if "length S = 1"
      using that by (cases S) (simp_all add: m'_def)
    ultimately show ?thesis
      using rm inv' True i by (simp add: S_def [symmetric]) (simp add: m'_def)
  next
    case False
    define m' where "m' = m\<lparr>element_set := (butlast S)[unat i := last S],
      index_map := ((index_map m)(key (last S) \<mapsto> i))(k := None)\<rparr>"
    have rm: "remove_op m k = Returns m'"
      using remove_middle [OF assms] False by (simp add: S_def m'_def)
    have inv': "invariant m'"
      using remove_middle_invariant(1) [OF assms] False by (simp add: S_def m'_def)
    have ne: "S \<noteq> []"
      using i by auto
    have "key (last S) \<noteq> k"
    proof
      assume "key (last S) = k"
      with ki ne have "key (S ! (length S - 1)) = key (S ! unat i)"
        by (simp add: last_conv_nth)
      from invariant_key_inj [OF assms(1) _ _ this [unfolded S_def]] i ne False show False
        by (simp add: S_def)
    qed
    moreover have "length S \<noteq> 1"
      using i False by auto
    ultimately show ?thesis
      using rm inv' False i by (simp add: S_def [symmetric]) (simp add: m'_def)
  qed
qed

theorem remove_swap_and_pop_witness:
  "invariant example_map \<and> index_map example_map ''hello'' = Some 0 \<and>
   (\<exists>m'. remove_op example_map ''hello'' = Returns m' \<and>
      element_set m' = [\<lparr>key = ''hello3'', elem_value = ''world3''\<rparr>,
                        \<lparr>key = ''hello2'', elem_value = ''world2''\<rparr>] \<and>
      index_map m' ''hello3'' = Some 0 \<and> index_map m' ''hello2'' = Some 1 \<and>
      index_map m' ''hello'' = None)"
proof -
  have h: "index_map example_map ''hello'' = Some 0"
    by (simp add: example_map_def)
  from remove_swap_and_pop [OF example_map_invariant h] obtain m' where
    m': "remove_op example_map ''hello'' = Returns m'" "index_map m' ''hello'' = None"
      "unat (0 :: uint32_t) \<noteq> length (element_set example_map) - 1 \<longrightarrow>
         element_set m' = (butlast (element_set example_map))[unat (0 :: uint32_t) := last (element_set example_map)] \<and>
         index_map m' (key (last (element_set example_map))) = Some 0 \<and>
         (\<forall>k'. k' \<noteq> ''hello'' \<longrightarrow> k' \<noteq> key (last (element_set example_map)) \<longrightarrow>
            index_map m' k' = index_map example_map k')"
    by blast
  from m'(3) have "element_set m' = [\<lparr>key = ''hello3'', elem_value = ''world3''\<rparr>,
                        \<lparr>key = ''hello2'', elem_value = ''world2''\<rparr>]"
    "index_map m' ''hello3'' = Some 0" "index_map m' ''hello2'' = Some 1"
    by (simp_all add: example_map_def)
  with m'(1,2) h example_map_invariant show ?thesis
    by blast
qed


lemma invariant_card: "invariant m \<Longrightarrow> card (dom (index_map m)) = length (element_set m)"
  by (simp add: invariant_def)

text \<open>
  C6. In a state satisfying the invariant the number of live entries (the keys of
  the position index) is the length of the dense store, which \<open>size()\<close> reports;
  \<open>insert\<close> of a key not present raises it by exactly one and \<open>insert\<close> of a key
  present leaves it; \<open>remove\<close> of a key present lowers it by exactly one and
  \<open>remove\<close> of a key absent leaves it.
\<close>

theorem size_conservation:
  assumes "invariant m"
  shows "size_op m = length (element_set m) \<and>
         length (element_set m) = card (dom (index_map m)) \<and>
         (\<exists>m'. insert_op m k v = Returns m' \<and>
            length (element_set m') =
              (if k \<in> dom (index_map m) then length (element_set m)
               else length (element_set m) + 1)) \<and>
         (\<exists>m'. remove_op m k = Returns m' \<and>
            (if k \<in> dom (index_map m) then length (element_set m') + 1 = length (element_set m)
             else length (element_set m') = length (element_set m)))"
proof -
  have pos: "0 < length (element_set m)" if "index_map m k \<noteq> None"
    using that invariant_valid [OF assms, of k] by auto
  from insert_op_length [OF assms, of k v]
  have "\<exists>m'. insert_op m k v = Returns m' \<and>
            length (element_set m') =
              (if k \<in> dom (index_map m) then length (element_set m)
               else length (element_set m) + 1)"
    by (auto simp: dom_def)
  moreover from remove_op_invariant [OF assms, of k] pos
  have "\<exists>m'. remove_op m k = Returns m' \<and>
            (if k \<in> dom (index_map m) then length (element_set m') + 1 = length (element_set m)
             else length (element_set m') = length (element_set m))"
    by (auto simp: dom_def)
  ultimately show ?thesis
    using invariant_card [OF assms] by (simp add: size_op_def)
qed

theorem size_conservation_witness:
  "invariant example_map \<and> size_op example_map = 3 \<and>
   (\<exists>m'. insert_op example_map ''hello4'' ''world4'' = Returns m' \<and> length (element_set m') = 4) \<and>
   (\<exists>m'. insert_op example_map ''hello3'' ''world4'' = Returns m' \<and> length (element_set m') = 3) \<and>
   (\<exists>m'. remove_op example_map ''hello'' = Returns m' \<and> length (element_set m') = 2) \<and>
   (\<exists>m'. remove_op example_map ''blubsi'' = Returns m' \<and> length (element_set m') = 3)"
proof -
  have s: "length (element_set example_map) = 3"
    by (simp add: example_map_def)
  have d: "''hello4'' \<notin> dom (index_map example_map)" "''hello3'' \<in> dom (index_map example_map)"
    "''hello'' \<in> dom (index_map example_map)" "''blubsi'' \<notin> dom (index_map example_map)"
    by (simp_all add: example_map_def)
  from size_conservation [OF example_map_invariant, of "''hello4''" "''world4''"] d(1) s
  have "\<exists>m'. insert_op example_map ''hello4'' ''world4'' = Returns m' \<and> length (element_set m') = 4"
    by simp
  moreover from size_conservation [OF example_map_invariant, of "''hello3''" "''world4''"] d(2) s
  have "\<exists>m'. insert_op example_map ''hello3'' ''world4'' = Returns m' \<and> length (element_set m') = 3"
    by simp
  moreover from size_conservation [OF example_map_invariant, of "''hello''" "''w''"] d(3) s
  have "\<exists>m'. remove_op example_map ''hello'' = Returns m' \<and> length (element_set m') = 2"
    by simp
  moreover from size_conservation [OF example_map_invariant, of "''blubsi''" "''w''"] d(4) s
  have "\<exists>m'. remove_op example_map ''blubsi'' = Returns m' \<and> length (element_set m') = 3"
    by simp
  moreover from size_conservation [OF example_map_invariant, of "''hello''" "''w''"] s
  have "size_op example_map = 3"
    by simp
  ultimately show ?thesis
    using example_map_invariant by blast
qed

text \<open>
  C8. In every state, \<open>remove(k)\<close> of an absent key returns the state unchanged
  (it is no error), and a second \<open>remove(k)\<close> right after a first that returned
  changes nothing; from a state satisfying the invariant the first one returns.
\<close>

theorem remove_absent_noop:
  "(index_map m k = None \<longrightarrow> remove_op m k = Returns m) \<and>
   (\<forall>m'. remove_op m k = Returns m' \<longrightarrow> remove_op m' k = Returns m') \<and>
   (invariant m \<longrightarrow> (\<exists>m'. remove_op m k = Returns m' \<and> remove_op m' k = Returns m'))"
proof -
  have twice: "remove_op m' k = Returns m'" if "remove_op m k = Returns m'" for m'
  proof -
    from that have "index_map m' k = None"
      by (auto simp: remove_op_def find_index_def Let_def split: option.splits if_splits)
    then show ?thesis
      by (rule remove_absent)
  qed
  moreover have "\<exists>m'. remove_op m k = Returns m' \<and> remove_op m' k = Returns m'" if "invariant m"
    using remove_op_invariant [OF that, of k] twice by blast
  ultimately show ?thesis
    by (simp add: remove_absent)
qed

theorem remove_absent_noop_witness:
  "index_map example_map ''blubsi'' = None \<and> invariant example_map \<and>
   remove_op example_map ''blubsi'' = Returns example_map \<and>
   (\<exists>m'. remove_op example_map ''hello'' = Returns m' \<and> remove_op m' ''hello'' = Returns m')"
proof -
  have h: "index_map example_map ''blubsi'' = None"
    by (simp add: example_map_def)
  from remove_absent_noop [of example_map "''blubsi''"] h
  have "remove_op example_map ''blubsi'' = Returns example_map"
    by blast
  moreover from remove_absent_noop [of example_map "''hello''"] example_map_invariant
  have "\<exists>m'. remove_op example_map ''hello'' = Returns m' \<and> remove_op m' ''hello'' = Returns m'"
    by blast
  ultimately show ?thesis
    using h example_map_invariant by blast
qed

lemma insert_present:
  assumes inv: "invariant m" and k: "index_map m k \<noteq> None"
  shows "\<exists>m'. insert_op m k v = Returns m' \<and> invariant m' \<and> index_map m' k \<noteq> None \<and>
           find_op m' k = Returns (Some v) \<and> length (element_set m') = length (element_set m) \<and> at_tail m' k v"
proof -
  from insert_op_invariant [OF inv, of k v] k obtain m' where
    ins: "insert_op m k v = Returns m'" and inv': "invariant m'"
    and c: "contents m' = (contents m)(k \<mapsto> v)"
    and len: "length (element_set m') = length (element_set m)"
    and idx: "index_map m' k = Some (word_of_nat (length (element_set m') - 1))"
    and lst: "element_set m' ! (length (element_set m') - 1) = \<lparr>key = k, elem_value = v\<rparr>"
    by auto
  define S' where "S' = element_set m'"
  from invariant_valid [OF inv' idx] have ne: "S' \<noteq> []"
    by (auto simp: S'_def)
  have un: "unat (word_of_nat (length S' - 1) :: uint32_t) = length S' - 1"
    using invariant_length [OF inv'] ne by (simp add: unat_of_nat_u32 S'_def)
  have "find_op m' k = Returns (Some v)"
    by (simp add: find_contents [OF inv'] c)
  moreover have "Suc j = length S'" if "j < length S'" "key (S' ! j) = k" for j
  proof -
    have "key (S' ! j) = key (S' ! (length S' - 1))"
      using that(2) lst by (simp add: S'_def)
    from invariant_key_inj [OF inv' _ _ this [unfolded S'_def]] that(1) ne
    show ?thesis
      by (simp add: S'_def)
  qed
  moreover have "last S' = \<lparr>key = k, elem_value = v\<rparr>"
    using lst ne by (simp add: last_conv_nth S'_def)
  moreover have "\<exists>i. index_map m' k = Some i \<and> Suc (unat i) = length S'"
  proof (intro exI conjI)
    show "index_map m' k = Some (word_of_nat (length S' - 1))"
      using idx by (simp only: S'_def)
    show "Suc (unat (word_of_nat (length S' - 1) :: uint32_t)) = length S'"
      using ne by (simp only: un) simp
  qed
  ultimately have "at_tail m' k v"
    using ne unfolding at_tail_def S'_def by blast
  moreover have "index_map m' k \<noteq> None"
    by (simp only: idx) simp
  moreover note len
  ultimately show ?thesis
    using ins inv' \<open>find_op m' k = Returns (Some v)\<close> by blast
qed

lemma insert_repeated:
  assumes "invariant m" "index_map m k \<noteq> None" "vs \<noteq> []"
  shows "\<exists>m'. run m (map (Insert k) vs) = Returns m' \<and> invariant m' \<and>
           find_op m' k = Returns (Some (last vs)) \<and> length (element_set m') = length (element_set m) \<and>
           at_tail m' k (last vs)"
  using assms
proof (induction vs arbitrary: m)
  case Nil
  then show ?case by simp
next
  case (Cons v vs)
  from insert_present [OF Cons.prems(1,2), of v] obtain m1 where
    m1: "insert_op m k v = Returns m1" "invariant m1" "index_map m1 k \<noteq> None"
      "find_op m1 k = Returns (Some v)" "length (element_set m1) = length (element_set m)" "at_tail m1 k v"
    by blast
  show ?case
  proof (cases "vs = []")
    case True
    with m1 show ?thesis by simp
  next
    case False
    from Cons.IH [OF m1(2,3) False] m1(1,5) False show ?thesis
      by simp
  qed
qed

text \<open>
  C7, as amended. In a state satisfying the invariant, \<open>insert(k, v2)\<close> of a key
  already present returns; a following \<open>find(k)\<close> gives \<open>v2\<close>, the number of entries is
  unchanged, \<open>k\<close> is held at the last slot of the dense store and at no other
  slot. The same holds after any non-empty run of inserts of \<open>k\<close>, with the value
  of the last one: each insert moves \<open>k\<close> to the tail again.
\<close>

theorem insert_overwrite_moves_to_tail:
  assumes "invariant m" "index_map m k \<noteq> None"
  shows "(\<exists>m'. insert_op m k v2 = Returns m' \<and> invariant m' \<and>
            find_op m' k = Returns (Some v2) \<and> length (element_set m') = length (element_set m) \<and> at_tail m' k v2) \<and>
         (\<forall>vs. vs \<noteq> [] \<longrightarrow>
            (\<exists>m'. run m (map (Insert k) vs) = Returns m' \<and> invariant m' \<and>
               find_op m' k = Returns (Some (last vs)) \<and> length (element_set m') = length (element_set m) \<and>
               at_tail m' k (last vs)))"
  using insert_present [OF assms, of v2] insert_repeated [OF assms] by blast

theorem insert_overwrite_moves_to_tail_witness:
  "invariant example_map \<and> index_map example_map ''hello'' \<noteq> None \<and>
   (\<exists>m'. insert_op example_map ''hello'' ''world4'' = Returns m' \<and>
      find_op m' ''hello'' = Returns (Some ''world4'') \<and> length (element_set m') = 3 \<and>
      last (element_set m') = \<lparr>key = ''hello'', elem_value = ''world4''\<rparr> \<and>
      index_map m' ''hello'' = Some 2)"
proof -
  have h: "index_map example_map ''hello'' \<noteq> None"
    by (simp add: example_map_def)
  have s: "length (element_set example_map) = 3"
    by (simp add: example_map_def)
  from insert_overwrite_moves_to_tail [OF example_map_invariant h, of "''world4''"]
  obtain m' where m': "insert_op example_map ''hello'' ''world4'' = Returns m'"
    "find_op m' ''hello'' = Returns (Some ''world4'')"
    "length (element_set m') = length (element_set example_map)"
    "at_tail m' ''hello'' ''world4''"
    by blast
  from m'(4) obtain i where i: "index_map m' ''hello'' = Some i" "Suc (unat i) = length (element_set m')"
    by (auto simp: at_tail_def)
  from i(2) m'(3) s have "unat i = unat (2 :: uint32_t)"
    by simp
  then have "i = 2"
    by (simp only: word_unat_eq_iff)
  with i m' s h example_map_invariant show ?thesis
    by (auto simp: at_tail_def)
qed


lemma call_op_invariant:
  assumes inv: "invariant m"
    and cap: "\<And>m'. call_op m c = Returns m' \<Longrightarrow> length (element_set m') \<le> 2 ^ 32"
  shows "\<exists>m'. call_op m c = Returns m' \<and> invariant m' \<and>
           (\<forall>k. contents m' k = after_call k (contents m k) c)"
proof (cases c)
  case (Insert k v)
  from insert_op_length [OF inv, of k v] obtain m1 where
    m1: "insert_op m k v = Returns m1"
      "length (element_set m1) =
         (if index_map m k = None then length (element_set m) + 1 else length (element_set m))"
    by blast
  from cap [of m1] m1 Insert have "index_map m k \<noteq> None \<or> length (element_set m) < 2 ^ 32"
    by (auto split: if_splits)
  from insert_op_invariant [OF inv this, of v] Insert show ?thesis
    by auto
next
  case (Remove k)
  from remove_op_invariant [OF inv, of k] Remove show ?thesis
    by auto
next
  case (Find k)
  with inv show ?thesis
    by (simp add: find_contents)
qed

lemma run_invariant:
  assumes "invariant m" "within_capacity m cs"
  shows "\<exists>m'. run m cs = Returns m' \<and> invariant m' \<and>
           (\<forall>k. contents m' k = foldl (after_call k) (contents m k) cs)"
  using assms
proof (induction cs arbitrary: m)
  case Nil
  then show ?case by simp
next
  case (Cons c cs)
  have "length (element_set m') \<le> 2 ^ 32" if "call_op m c = Returns m'" for m'
    using Cons.prems(2) that by simp
  from call_op_invariant [OF Cons.prems(1) this] obtain m1 where
    m1: "call_op m c = Returns m1" "invariant m1"
      "\<And>k. contents m1 k = after_call k (contents m k) c"
    by blast
  from Cons.prems(2) m1(1) have "within_capacity m1 cs"
    by simp
  from Cons.IH [OF m1(2) this] m1(1,3) show ?case
    by simp
qed

lemma new_invariant: "invariant (RandomAccessUnorderedMap_new seed)"
  by (simp add: invariant_def RandomAccessUnorderedMap_new_def)

lemma new_contents: "contents (RandomAccessUnorderedMap_new seed) k = None"
  by (simp add: contents_def RandomAccessUnorderedMap_new_def)

text \<open>
  C1, as amended. From the new container, along any finite sequence of insert,
  remove and find calls in which the dense store never holds more than \<open>2^32\<close>
  entries, every call returns and the state reached satisfies the invariant: each
  key \<open>k\<close> of the position index with \<open>P[k] = i\<close> has \<open>i\<close> a valid slot with
  \<open>S[i].key = k\<close>, and the position index has as many entries as the dense store.
\<close>

theorem invariant_within_capacity:
  assumes "within_capacity (RandomAccessUnorderedMap_new seed) cs"
  shows "\<exists>m. run (RandomAccessUnorderedMap_new seed) cs = Returns m \<and> invariant m"
  using run_invariant [OF new_invariant assms] by blast

theorem invariant_within_capacity_witness:
  "within_capacity (RandomAccessUnorderedMap_new ())
     [Insert ''hello'' ''world'', Insert ''hello2'' ''world2'', Insert ''hello3'' ''world3''] \<and>
   run (RandomAccessUnorderedMap_new ())
     [Insert ''hello'' ''world'', Insert ''hello2'' ''world2'', Insert ''hello3'' ''world3'']
     = Returns example_map \<and>
   invariant example_map"
proof -
  have w: "within_capacity (RandomAccessUnorderedMap_new ())
     [Insert ''hello'' ''world'', Insert ''hello2'' ''world2'', Insert ''hello3'' ''world3'']"
    by (simp add: RandomAccessUnorderedMap_new_def insert_op_def remove_op_def
        find_index_def Let_def)
  from invariant_within_capacity [OF w] example_map_run have "invariant example_map"
    by simp
  with w example_map_run show ?thesis
    by blast
qed

text \<open>
  C4, as amended. From the new container, after any finite sequence of calls in
  which the dense store never holds more than \<open>2^32\<close> entries, \<open>find(k)\<close> returns
  (it never aborts), and it returns the value of the last \<open>insert(k, v)\<close> when no
  \<open>remove(k)\<close> follows it, and not-found otherwise: calls on other keys change
  nothing for \<open>k\<close>, and a key never inserted is not found.
\<close>

theorem find_after_calls:
  assumes "within_capacity (RandomAccessUnorderedMap_new seed) cs"
  shows "\<exists>m. run (RandomAccessUnorderedMap_new seed) cs = Returns m \<and>
           find_op m k = Returns (expected_find cs k)"
proof -
  from run_invariant [OF new_invariant assms] obtain m where
    m: "run (RandomAccessUnorderedMap_new seed) cs = Returns m" "invariant m"
      "\<And>k. contents m k = foldl (after_call k) (contents (RandomAccessUnorderedMap_new seed) k) cs"
    by blast
  from m(3) [of k] have "contents m k = expected_find cs k"
    by (simp add: new_contents expected_find_def)
  with m(1) find_contents [OF m(2), of k] show ?thesis
    by simp
qed


lemma run_append:
  "run m (cs @ ds) =
     (case run m cs of Returns m' \<Rightarrow> run m' ds | Aborts \<Rightarrow> Aborts | Undefined \<Rightarrow> Undefined)"
  by (induction cs arbitrary: m) (auto split: outcome.splits)

lemma distinct_inserts_Suc:
  "distinct_inserts (Suc n) = distinct_inserts n @ [Insert (word_of_nat n) (word_of_nat n)]"
  by (simp add: distinct_inserts_def)

lemma ucast_of_nat_64_32: "(ucast (word_of_nat n :: uint64_t) :: uint32_t) = word_of_nat n"
  by (simp add: unsigned_of_nat word_of_nat_eq_iff)

lemma unat_of_nat_u64: "n < 2 ^ 64 \<Longrightarrow> unat (word_of_nat n :: uint64_t) = n"
  by (simp add: unat_of_nat)

lemma insert_filled:
  assumes "n < 2 ^ 64"
  shows "insert_op (filled n g) (word_of_nat n) (word_of_nat n) = Returns (filled (Suc n) g)"
proof -
  have un: "unat (word_of_nat n :: uint64_t) = n"
    using assms by (rule unat_of_nat_u64)
  have absent: "index_map (filled n g) (word_of_nat n) = None"
    by (simp add: filled_def un)
  have len: "length (element_set (filled n g)) = n"
    by (simp add: filled_def)
  have sm: "size_minus_1 (Suc (length (element_set (filled n g)))) = n"
    using assms by (simp add: size_minus_1_pos len)
  have idx: "(index_map (filled n g))(word_of_nat n \<mapsto> (word_of_nat n :: uint32_t))
               = index_map (filled (Suc n) g)"
  proof
    fix k :: uint64_t
    show "((index_map (filled n g))(word_of_nat n \<mapsto> (word_of_nat n :: uint32_t))) k
            = index_map (filled (Suc n) g) k"
    proof (cases "k = word_of_nat n")
      case True
      then show ?thesis
        by (simp add: filled_def un ucast_of_nat_64_32)
    next
      case False
      then have "unat k \<noteq> n"
        by (metis of_nat_unat ucast_id)
      then show ?thesis
        using False by (auto simp: filled_def)
    qed
  qed
  have "insert_op (filled n g) (word_of_nat n) (word_of_nat n)
          = Returns ((filled n g)\<lparr>element_set := element_set (filled n g) @
                [\<lparr>key = word_of_nat n, elem_value = word_of_nat n\<rparr>],
              index_map := (index_map (filled n g))(word_of_nat n \<mapsto> word_of_nat n)\<rparr>)"
    by (simp add: insert_op_def remove_absent [OF absent] absent Let_def sm)
  also have "\<dots> = Returns (filled (Suc n) g)"
    unfolding idx by (simp add: filled_def)
  finally show ?thesis .
qed

lemma run_distinct_inserts:
  "n \<le> 2 ^ 64 \<Longrightarrow>
     run (RandomAccessUnorderedMap_new g) (distinct_inserts n) = Returns (filled n g)"
proof (induction n)
  case 0
  show ?case
    by (simp add: distinct_inserts_def filled_def RandomAccessUnorderedMap_new_def)
next
  case (Suc n)
  then have "n < 2 ^ 64" "n \<le> 2 ^ 64"
    by simp_all
  with Suc.IH show ?case
    by (simp add: distinct_inserts_Suc run_append insert_filled)
qed

lemma filled_invariant:
  assumes "n \<le> 2 ^ 32"
  shows "invariant (filled n g)"
  unfolding invariant_slots
proof (intro conjI allI impI)
  show "length (element_set (filled n g)) \<le> 2 ^ 32"
    using assms by (simp add: filled_def)
next
  fix j assume "j < length (element_set (filled n g))"
  then have j: "j < n"
    by (simp add: filled_def)
  with assms have "j < 2 ^ 64"
    by simp
  then have "unat (word_of_nat j :: uint64_t) = j"
    by (rule unat_of_nat_u64)
  with j show "index_map (filled n g) (key (element_set (filled n g) ! j)) = Some (word_of_nat j)"
    by (simp add: filled_def ucast_of_nat_64_32)
next
  fix k i assume "index_map (filled n g) k = Some i"
  then have "unat k < n"
    by (simp add: filled_def split: if_splits)
  then show "\<exists>j<length (element_set (filled n g)). key (element_set (filled n g) ! j) = k"
    by (auto simp: filled_def intro!: exI [of _ "unat k"])
qed


text \<open>
  C1 as stated fails past \<open>2^32\<close> entries: after the inserts of the \<open>2^32 + 1\<close>
  distinct keys \<open>0, ..., 2^32\<close>, the slot stored for the key \<open>2^32\<close> is its low 32
  bits, \<open>0\<close>, and slot \<open>0\<close> holds the key \<open>0\<close>.
\<close>

theorem invariant_reachable_counterexample:
  "run (RandomAccessUnorderedMap_new ()) (distinct_inserts 4294967297)
     = Returns (filled 4294967297 ()) \<and>
   index_map (filled 4294967297 ()) 4294967296 = Some 0 \<and>
   key (element_set (filled 4294967297 ()) ! unat (0 :: uint32_t)) = 0 \<and>
   \<not> invariant (filled 4294967297 ())"
proof -
  have r: "run (RandomAccessUnorderedMap_new ()) (distinct_inserts 4294967297)
     = Returns (filled 4294967297 ())"
    by (rule run_distinct_inserts) simp
  have i: "index_map (filled 4294967297 ()) 4294967296 = Some 0"
    by (simp add: filled_def)
  have k: "key (element_set (filled 4294967297 ()) ! unat (0 :: uint32_t)) = 0"
    by (simp add: filled_def)
  have "\<not> invariant (filled 4294967297 ())"
  proof
    assume "invariant (filled 4294967297 ())"
    from invariant_valid [OF this i] k show False
      by simp
  qed
  with r i k show ?thesis
    by blast
qed

theorem find_after_calls_witness:
  "within_capacity (RandomAccessUnorderedMap_new ())
     [Insert ''hello'' ''world'', Insert ''hello2'' ''world2'', Insert ''hello3'' ''world3'',
      Remove ''hello'', Remove ''blubsi'', Insert ''hello3'' ''world4''] \<and>
   (\<exists>m. run (RandomAccessUnorderedMap_new ())
          [Insert ''hello'' ''world'', Insert ''hello2'' ''world2'', Insert ''hello3'' ''world3'',
           Remove ''hello'', Remove ''blubsi'', Insert ''hello3'' ''world4''] = Returns m \<and>
        find_op m ''hello3'' = Returns (Some ''world4''))"
proof -
  have w: "within_capacity (RandomAccessUnorderedMap_new ())
     [Insert ''hello'' ''world'', Insert ''hello2'' ''world2'', Insert ''hello3'' ''world3'',
      Remove ''hello'', Remove ''blubsi'', Insert ''hello3'' ''world4'']"
    by (simp add: RandomAccessUnorderedMap_new_def insert_op_def remove_op_def
        find_index_def Let_def size_minus_1_def)
  from find_after_calls [OF w, of "''hello3''"] w show ?thesis
    by (simp add: expected_find_def)
qed

text \<open>
  C4 as stated fails past \<open>2^32\<close> entries: the last of the \<open>2^32 + 1\<close> inserts is
  \<open>insert(2^32, 2^32)\<close>, and \<open>find(2^32)\<close> right after it returns \<open>0\<close>, the value
  held at slot \<open>0\<close>.
\<close>

theorem find_after_calls_counterexample:
  "run (RandomAccessUnorderedMap_new ()) (distinct_inserts 4294967297)
     = Returns (filled 4294967297 ()) \<and>
   distinct_inserts 4294967297 = distinct_inserts 4294967296 @ [Insert 4294967296 4294967296] \<and>
   find_op (filled 4294967297 ()) 4294967296 = Returns (Some 0)"
proof -
  have r: "run (RandomAccessUnorderedMap_new ()) (distinct_inserts 4294967297)
     = Returns (filled 4294967297 ())"
    by (rule run_distinct_inserts) simp
  have "(4294967297 :: nat) = Suc 4294967296"
    by simp
  then have "distinct_inserts 4294967297
      = distinct_inserts 4294967296 @ [Insert (word_of_nat 4294967296) (word_of_nat 4294967296)]"
    by (simp only: distinct_inserts_Suc)
  then have d: "distinct_inserts 4294967297
      = distinct_inserts 4294967296 @ [Insert 4294967296 4294967296]"
    by simp
  have "find_op (filled 4294967297 ()) 4294967296 = Returns (Some 0)"
    by (simp add: find_op_def find_index_def filled_def)
  with r d show ?thesis
    by blast
qed


text \<open>
  Past \<open>2^32\<close> entries: with \<open>2^32 + 1\<close> entries and \<open>k\<close> indexed at slot \<open>0\<close>,
  \<open>remove\<close> moves the last entry to slot \<open>0\<close>, the slot of the entry appended by
  \<open>insert\<close> narrows to \<open>0\<close>, and \<open>find\<close> reads the entry moved there.
\<close>

lemma insert_past_capacity:
  assumes k: "index_map m k = Some 0"
    and len: "length (element_set m) = 4294967297"
  shows "find_after_insert m k v = Returns (Some (elem_value (last (element_set m))))"
proof -
  define S where "S = element_set m"
  define S' where "S' = butlast (S[0 := S ! 4294967296, 4294967296 := S ! 0])"
  have n: "length S = 4294967297"
    using len by (simp add: S_def)
  have sm: "size_minus_1 4294967297 = 4294967296"
    by (simp add: size_minus_1_def)
  have len': "length S' = 4294967296"
    by (simp add: S'_def n)
  have ne: "S \<noteq> []"
    using n by auto
  have S'0: "S' ! 0 = last S"
    by (simp add: S'_def nth_butlast n last_conv_nth ne)
  define m1 where "m1 = m\<lparr>element_set := S',
      index_map := ((index_map m)(key (S' ! 0) \<mapsto> 0))(k := None)\<rparr>"
  have ne': "S' \<noteq> []"
    using len' by auto
  have rm: "remove_op m k = Returns m1"
    using k ne'
    by (simp add: remove_op_def find_index_def Let_def S_def [symmetric] n sm
        S'_def [symmetric] len' m1_def)
  have sm1: "size_minus_1 (Suc (length S')) = 4294967296"
    by (simp add: len' size_minus_1_def)
  have z: "(4294967296 :: uint32_t) = 0"
    by (simp add: word_unat_eq_iff)
  define m2 where "m2 = m1\<lparr>element_set := S' @ [\<lparr>key = k, elem_value = v\<rparr>],
      index_map := (index_map m1)(k \<mapsto> 0)\<rparr>"
  have k1: "index_map m1 k = None" and e1: "element_set m1 = S'"
    by (simp_all add: m1_def)
  have "insert_op m k v =
      (let es = S' @ [\<lparr>key = k, elem_value = v\<rparr>];
           slot = (word_of_nat (size_minus_1 (length es)) :: uint32_t)
       in Returns (m1\<lparr>element_set := es, index_map := (index_map m1)(k \<mapsto> slot)\<rparr>))"
    by (simp add: insert_op_def rm k1 e1 Let_def)
  also have "\<dots> = Returns m2"
    by (simp add: Let_def sm1 z m2_def)
  finally have ins: "insert_op m k v = Returns m2" .
  have "find_op m2 k = Returns (Some (elem_value (last S)))"
    by (simp add: find_op_def find_index_def m2_def m1_def len' nth_append S'0)
  with ins show ?thesis
    by (simp add: find_after_insert_def S_def)
qed

text \<open>
  C7 as stated, for every container state, fails past \<open>2^32\<close> entries: in the
  state reached by the inserts of the \<open>2^32 + 1\<close> distinct keys \<open>0, ..., 2^32\<close>
  the key \<open>2^32\<close> is present, indexed at slot \<open>0\<close>; \<open>insert(2^32, 7)\<close> followed
  by \<open>find(2^32)\<close> gives the old value \<open>2^32\<close>, left at slot \<open>0\<close>, and not \<open>7\<close>.
\<close>

theorem insert_overwrite_counterexample:
  "run (RandomAccessUnorderedMap_new ()) (distinct_inserts 4294967297)
     = Returns (filled 4294967297 ()) \<and>
   index_map (filled 4294967297 ()) 4294967296 = Some 0 \<and>
   find_after_insert (filled 4294967297 ()) 4294967296 7 = Returns (Some 4294967296)"
proof -
  have r: "run (RandomAccessUnorderedMap_new ()) (distinct_inserts 4294967297)
     = Returns (filled 4294967297 ())"
    by (rule run_distinct_inserts) simp
  have i: "index_map (filled 4294967297 ()) 4294967296 = Some 0"
    by (simp add: filled_def)
  have l: "length (element_set (filled 4294967297 ())) = 4294967297"
    by (simp add: filled_def)
  have "elem_value (last (element_set (filled 4294967297 ()))) = 4294967296"
    by (simp add: filled_def last_conv_nth)
  with insert_past_capacity [OF i l, of 7] r i show ?thesis
    by simp
qed

lemma sint_of_nat_u32:
  assumes "j < 2 ^ 31"
  shows "sint (word_of_nat j :: 32 word) = int j"
proof -
  have "- (2 ^ 31) \<le> int j"
    by (rule order_trans [of _ 0]) simp_all
  moreover have "int j < int (2 ^ 31)"
    using assms by (simp only: of_nat_less_iff)
  then have "int j < 2 ^ 31"
    by simp
  ultimately have "signed_take_bit 31 (int j) = int j"
    by (rule signed_take_bit_int_eq_self)
  then show ?thesis
    by (simp add: signed_of_nat)
qed

lemma random_index_bound_eq:
  assumes "element_set m \<noteq> []" "length (element_set m) \<le> 2 ^ 31"
  shows "random_index_bound m = int (length (element_set m)) - 1"
proof -
  define n where "n = length (element_set m)"
  from assms have n: "0 < n" "n \<le> 2 ^ 31"
    by (simp_all add: n_def)
  then have "size_minus_1 n = n - 1"
    by (simp add: size_minus_1_pos)
  moreover have "sint (word_of_nat (n - 1) :: 32 word) = int (n - 1)"
    using n by (intro sint_of_nat_u32) simp
  ultimately show ?thesis
    using n by (simp add: random_index_bound_def n_def [symmetric])
qed

lemma random_key_new: "random_key distrib (RandomAccessUnorderedMap_new seed) = Undefined"
  by (simp add: random_key_def random_index_bound_def RandomAccessUnorderedMap_new_def
      size_minus_1_def)

lemma random_key_drawn:
  assumes "element_set m \<noteq> []" "length (element_set m) \<le> 2 ^ 31"
    and "distrib 0 (random_index_bound m) (random_number_generator m) = (r, g')"
    and "0 \<le> r" "r \<le> random_index_bound m"
  shows "random_key distrib m =
           Returns (key (element_set m ! nat r), m\<lparr>random_number_generator := g'\<rparr>)"
proof -
  note b = random_index_bound_eq [OF assms(1,2)]
  from assms(4,5) have "nat r < length (element_set m)"
    by (simp add: b)
  moreover have "\<not> random_index_bound m < 0"
    using assms(1) by (simp add: b)
  ultimately show ?thesis
    using assms(3,4) by (simp add: random_key_def Let_def)
qed


lemma random_key_empty: "element_set m = [] \<Longrightarrow> random_key distrib m = Undefined"
  by (simp add: random_key_def random_index_bound_def size_minus_1_def)

text \<open>
  C2, as amended. On a container whose dense store is empty the code makes no
  check: the bound handed to the distribution is \<open>-1\<close> and the call is undefined
  behaviour, neither an abort nor an error value. On a non-empty container
  satisfying the invariant, with at most \<open>2^31\<close> entries and a draw within the bounds
  handed to the distribution, \<open>random_key\<close> returns a key of the position index
  and leaves the dense store and the position index as they are, so the invariant
  still holds.
\<close>

theorem random_key_precondition:
  "(element_set m = [] \<longrightarrow> random_key distrib m = Undefined) \<and>
   (invariant m \<longrightarrow> element_set m \<noteq> [] \<longrightarrow> length (element_set m) \<le> 2 ^ 31 \<longrightarrow>
    0 \<le> fst (distrib 0 (random_index_bound m) (random_number_generator m)) \<longrightarrow>
    fst (distrib 0 (random_index_bound m) (random_number_generator m)) \<le> random_index_bound m \<longrightarrow>
      (\<exists>k m'. random_key distrib m = Returns (k, m') \<and> index_map m k \<noteq> None \<and>
         element_set m' = element_set m \<and> index_map m' = index_map m \<and> invariant m'))"
proof (intro conjI impI)
  show "random_key distrib m = Undefined" if "element_set m = []"
    using that by (rule random_key_empty)
next
  assume inv: "invariant m" and ne: "element_set m \<noteq> []"
    and len: "length (element_set m) \<le> 2 ^ 31"
    and lo: "0 \<le> fst (distrib 0 (random_index_bound m) (random_number_generator m))"
    and hi: "fst (distrib 0 (random_index_bound m) (random_number_generator m)) \<le> random_index_bound m"
  obtain r g' where d: "distrib 0 (random_index_bound m) (random_number_generator m) = (r, g')"
    by (cases "distrib 0 (random_index_bound m) (random_number_generator m)")
  with lo hi have r: "0 \<le> r" "r \<le> random_index_bound m"
    by simp_all
  define m' where "m' = m\<lparr>random_number_generator := g'\<rparr>"
  have rk: "random_key distrib m = Returns (key (element_set m ! nat r), m')"
    unfolding m'_def
    by (rule random_key_drawn [where distrib = distrib and r = r and g' = g', OF ne len d r])
  have "nat r < length (element_set m)"
    using r by (simp add: random_index_bound_eq [OF ne len])
  from invariant_slot [OF inv this] have "index_map m (key (element_set m ! nat r)) \<noteq> None"
    by simp
  moreover have "invariant m'"
    using inv by (simp add: invariant_def m'_def)
  ultimately show "\<exists>k m'. random_key distrib m = Returns (k, m') \<and> index_map m k \<noteq> None \<and>
         element_set m' = element_set m \<and> index_map m' = index_map m \<and> invariant m'"
    using rk by (auto simp: m'_def)
qed

theorem random_key_precondition_witness:
  "random_key (draws 0) (RandomAccessUnorderedMap_new () :: (string, string, unit) RandomAccessUnorderedMap)
     = Undefined \<and>
   invariant example_map \<and> element_set example_map \<noteq> [] \<and>
   length (element_set example_map) \<le> 2 ^ 31 \<and>
   fst (draws 1 0 (random_index_bound example_map) (random_number_generator example_map)) = 1 \<and>
   random_index_bound example_map = 2 \<and>
   (\<exists>k m'. random_key (draws 1) example_map = Returns (k, m') \<and> index_map example_map k \<noteq> None \<and>
      element_set m' = element_set example_map \<and> index_map m' = index_map example_map \<and>
      invariant m')"
proof -
  have e: "element_set (RandomAccessUnorderedMap_new () :: (string, string, unit) RandomAccessUnorderedMap) = []"
    by (simp add: RandomAccessUnorderedMap_new_def)
  have ne: "element_set example_map \<noteq> []" and len: "length (element_set example_map) \<le> 2 ^ 31"
    by (simp_all add: example_map_def)
  have b: "random_index_bound example_map = 2"
    using random_index_bound_eq [OF ne len] by (simp add: example_map_def)
  have d: "fst (draws 1 0 (random_index_bound example_map) (random_number_generator example_map)) = 1"
    by (simp add: draws_def)
  from random_key_precondition [of "RandomAccessUnorderedMap_new () :: (string, string, unit) RandomAccessUnorderedMap" "draws 0"] e
  have "random_key (draws 0) (RandomAccessUnorderedMap_new () :: (string, string, unit) RandomAccessUnorderedMap)
     = Undefined"
    by blast
  moreover from random_key_precondition [of example_map "draws 1"] example_map_invariant ne len d b
  have "\<exists>k m'. random_key (draws 1) example_map = Returns (k, m') \<and> index_map example_map k \<noteq> None \<and>
      element_set m' = element_set example_map \<and> index_map m' = index_map example_map \<and>
      invariant m'"
    by simp
  ultimately show ?thesis
    using example_map_invariant ne len d b by blast
qed

text \<open>
  C2 as stated fails: on the new container of \<open>main\<close>'s type the bound is \<open>-1\<close>
  and \<open>random_key\<close> is undefined behaviour, not an abort.
\<close>

theorem random_key_empty_counterexample:
  "random_index_bound (RandomAccessUnorderedMap_new () :: (string, string, unit) RandomAccessUnorderedMap) = - 1 \<and>
   random_key (draws 0) (RandomAccessUnorderedMap_new () :: (string, string, unit) RandomAccessUnorderedMap)
     = Undefined \<and>
   random_key (draws 0) (RandomAccessUnorderedMap_new () :: (string, string, unit) RandomAccessUnorderedMap)
     \<noteq> Aborts"
  by (simp add: random_key_def random_index_bound_def RandomAccessUnorderedMap_new_def
      size_minus_1_def)

text \<open>
  C5, as amended. On a non-empty container satisfying the invariant with at most
  \<open>2^31\<close> entries, \<open>random_key\<close> hands the distribution the bounds
  \<open>[0, len(S) - 1]\<close> and returns the key stored at the slot drawn. Slots and live
  keys correspond one to one, so each live key is returned for exactly one of the
  \<open>len(S)\<close> draws, which the library makes equally likely.
\<close>

theorem random_key_uniform:
  assumes "invariant m" "element_set m \<noteq> []" "length (element_set m) \<le> 2 ^ 31"
  shows "random_index_bound m = int (length (element_set m)) - 1 \<and>
         (\<forall>distrib r g'.
            distrib 0 (random_index_bound m) (random_number_generator m) = (r, g') \<and>
            0 \<le> r \<and> r \<le> random_index_bound m \<longrightarrow>
            random_key distrib m =
              Returns (key (element_set m ! nat r), m\<lparr>random_number_generator := g'\<rparr>)) \<and>
         bij_betw (\<lambda>j. key (element_set m ! j)) {..<length (element_set m)} (dom (index_map m)) \<and>
         (\<forall>k \<in> dom (index_map m).
            card {j. j < length (element_set m) \<and> key (element_set m ! j) = k} = 1)"
proof -
  define S where "S = element_set m"
  define P where "P = index_map m"
  note valid = invariant_valid [OF assms(1), folded S_def P_def]
  note slot = invariant_slot [OF assms(1), folded S_def P_def]
  note key_inj = invariant_key_inj [OF assms(1), folded S_def P_def]
  have inj: "inj_on (\<lambda>j. key (S ! j)) {..<length S}"
    by (rule inj_onI) (simp add: key_inj)
  have img: "(\<lambda>j. key (S ! j)) ` {..<length S} = dom P"
  proof (intro set_eqI iffI)
    fix k assume "k \<in> (\<lambda>j. key (S ! j)) ` {..<length S}"
    then show "k \<in> dom P"
      using slot by auto
  next
    fix k assume "k \<in> dom P"
    then obtain i where "P k = Some i"
      by auto
    from valid [OF this] show "k \<in> (\<lambda>j. key (S ! j)) ` {..<length S}"
      by (auto simp: image_iff intro!: bexI [of _ "unat i"])
  qed
  have bij: "bij_betw (\<lambda>j. key (S ! j)) {..<length S} (dom P)"
    using inj img by (simp add: bij_betw_def)
  have one: "card {j. j < length S \<and> key (S ! j) = k} = 1" if "k \<in> dom P" for k
  proof -
    from that obtain i where i: "P k = Some i"
      by auto
    from valid [OF i] have v: "unat i < length S" "key (S ! unat i) = k"
      by simp_all
    have "{j. j < length S \<and> key (S ! j) = k} = {unat i}"
    proof (intro set_eqI iffI)
      fix j assume "j \<in> {j. j < length S \<and> key (S ! j) = k}"
      then have "j < length S" "key (S ! j) = key (S ! unat i)"
        using v by simp_all
      from key_inj [OF this(1) v(1) this(2)] show "j \<in> {unat i}"
        by simp
    next
      fix j assume "j \<in> {unat i}"
      with v show "j \<in> {j. j < length S \<and> key (S ! j) = k}"
        by simp
    qed
    then show ?thesis
      by simp
  qed
  have "random_key distrib m =
          Returns (key (element_set m ! nat r), m\<lparr>random_number_generator := g'\<rparr>)"
    if "distrib 0 (random_index_bound m) (random_number_generator m) = (r, g')"
      "0 \<le> r" "r \<le> random_index_bound m" for distrib r g'
    using random_key_drawn [where distrib = distrib and r = r and g' = g', OF assms(2,3) that] .
  with bij one random_index_bound_eq [OF assms(2,3)] show ?thesis
    unfolding S_def P_def by blast
qed

theorem random_key_uniform_witness:
  "invariant example_map \<and> element_set example_map \<noteq> [] \<and>
   length (element_set example_map) \<le> 2 ^ 31 \<and>
   random_index_bound example_map = 2 \<and>
   random_key (draws 1) example_map = Returns (''hello2'', example_map) \<and>
   card {j. j < length (element_set example_map) \<and> key (element_set example_map ! j) = ''hello2''} = 1"
proof -
  have ne: "element_set example_map \<noteq> []" and len: "length (element_set example_map) \<le> 2 ^ 31"
    by (simp_all add: example_map_def)
  note u = random_key_uniform [OF example_map_invariant ne len]
  from u have b: "random_index_bound example_map = 2"
    by (simp add: example_map_def)
  have d: "draws 1 0 (random_index_bound example_map) (random_number_generator example_map)
             = (1, random_number_generator example_map)"
    by (simp add: draws_def)
  from u have
    "distrib 0 (random_index_bound example_map) (random_number_generator example_map) = (r, g') \<and>
       0 \<le> r \<and> r \<le> random_index_bound example_map \<longrightarrow>
     random_key distrib example_map =
       Returns (key (element_set example_map ! nat r),
                example_map\<lparr>random_number_generator := g'\<rparr>)" for distrib r g'
    by blast
  from this [of "draws 1" 1 "random_number_generator example_map"] d b
  have "random_key (draws 1) example_map =
      Returns (key (element_set example_map ! nat 1),
               example_map\<lparr>random_number_generator := random_number_generator example_map\<rparr>)"
    by simp
  then have rk: "random_key (draws 1) example_map = Returns (''hello2'', example_map)"
    by (simp add: example_map_def)
  have "''hello2'' \<in> dom (index_map example_map)"
    by (simp add: example_map_def)
  with u have "card {j. j < length (element_set example_map) \<and>
                     key (element_set example_map ! j) = ''hello2''} = 1"
    by blast
  with example_map_invariant ne len b rk show ?thesis
    by blast
qed

text \<open>
  C5 as stated fails past \<open>2^31\<close> entries: the container reached by \<open>2^31 + 1\<close>
  inserts of distinct keys satisfies the invariant and is not empty, the bound
  \<open>size() - 1 = 2^31\<close> becomes \<open>-2^31\<close> as an \<open>int\<close>, below the lower bound
  \<open>0\<close>, and the call is undefined behaviour.
\<close>

theorem random_key_uniform_counterexample:
  "run (RandomAccessUnorderedMap_new ()) (distinct_inserts 2147483649)
     = Returns (filled 2147483649 ()) \<and>
   invariant (filled 2147483649 ()) \<and>
   element_set (filled 2147483649 ()) \<noteq> [] \<and>
   random_index_bound (filled 2147483649 ()) = - 2147483648 \<and>
   random_key (draws 0) (filled 2147483649 ()) = Undefined"
proof -
  have r: "run (RandomAccessUnorderedMap_new ()) (distinct_inserts 2147483649)
     = Returns (filled 2147483649 ())"
    by (rule run_distinct_inserts) simp
  have i: "invariant (filled 2147483649 ())"
    by (rule filled_invariant) simp
  have len: "length (element_set (filled 2147483649 ())) = 2147483649"
    by (simp add: filled_def)
  then have ne: "element_set (filled 2147483649 ()) \<noteq> []"
    by auto
  have b: "random_index_bound (filled 2147483649 ()) = - 2147483648"
    by (simp add: random_index_bound_def len size_minus_1_def)
  then have "random_key (draws 0) (filled 2147483649 ()) = Undefined"
    by (simp add: random_key_def)
  with r i ne b show ?thesis
    by blast
qed

section \<open>Modular arithmetic: proofs\<close>

lemma unat_shiftr1: "unat (drop_bit 1 (b::uint64_t)) = unat b div 2"
  by (simp add: drop_bit_eq_div unat_div)

lemma and_1_odd: "(b AND 1 \<noteq> 0) = odd (unat (b::uint64_t))"
proof -
  have "unat (b AND 1) = unat b mod 2"
    by (simp add: and_one_eq unat_mod)
  moreover have "(b AND 1 \<noteq> 0) = (unat (b AND 1) \<noteq> 0)"
    by (simp add: unat_eq_0)
  ultimately show ?thesis by (simp add: odd_iff_mod_2_eq_one)
qed

text \<open>The subtraction \<open>n - b\<close> and the two return expressions, read as naturals.\<close>

lemma mod_add_steps:
  fixes a b n :: uint64_t
  assumes "a < n" "b < n"
  shows "unat (n - b) = unat n - unat b"
    and "n - b \<le> a \<Longrightarrow> unat (a - (n - b)) = unat a - unat (n - b)"
    and "\<not> n - b \<le> a \<Longrightarrow> unat (n - (n - b)) = unat n - unat (n - b)"
    and "\<not> n - b \<le> a \<Longrightarrow> unat (n - (n - b) + a) = unat (n - (n - b)) + unat a"
proof -
  from assms have bn: "unat b < unat n"
    by (simp add: word_less_nat_alt)
  show nb: "unat (n - b) = unat n - unat b"
    using assms(2) by (simp add: unat_sub word_le_less_eq)
  show "unat (a - (n - b)) = unat a - unat (n - b)" if "n - b \<le> a"
    using that by (rule unat_sub)
  have le: "n - b \<le> n"
    using nb by (simp add: word_le_nat_alt)
  then show "unat (n - (n - b)) = unat n - unat (n - b)"
    by (rule unat_sub)
  show "unat (n - (n - b) + a) = unat (n - (n - b)) + unat a" if "\<not> n - b \<le> a"
  proof -
    from that have lt: "unat a < unat n - unat b"
      by (simp add: word_le_nat_alt nb)
    have "unat n < 2 ^ LENGTH(64)"
      by (rule unsigned_less)
    with lt bn have "unat (n - (n - b)) + unat a < 2 ^ LENGTH(64)"
      by (simp add: unat_sub [OF le] nb)
    then show ?thesis
      by (rule unat_add_lem [THEN iffD1])
  qed
qed

lemma mod_add_nat:
  fixes a b n :: uint64_t
  assumes "a < n" "b < n"
  shows "\<exists>r. mod_add a b n = Returns r \<and> unat r = (unat a + unat b) mod unat n"
proof -
  from assms have an: "unat a < unat n" and bn: "unat b < unat n"
    by (simp_all add: word_less_nat_alt)
  have n0: "0 < n"
    using assms(1) by (auto simp: word_gt_0)
  note steps = mod_add_steps [OF assms]
  show ?thesis
  proof (cases "b = 0")
    case True
    with assms n0 an show ?thesis
      by (simp add: mod_add_def)
  next
    case False
    show ?thesis
    proof (cases "n - b \<le> a")
      case True
      then have le: "unat n - unat b \<le> unat a"
        by (simp add: word_le_nat_alt steps(1))
      have "unat (a - (n - b)) = unat a - (unat n - unat b)"
        using True by (simp add: steps)
      also have "\<dots> = (unat a + unat b) - unat n"
        using bn by arith
      also have "\<dots> = (unat a + unat b) mod unat n"
      proof -
        have "unat n \<le> unat a + unat b"
          using le by arith
        moreover have "unat a + unat b - unat n < unat n"
          using an bn by arith
        ultimately show ?thesis
          by (simp add: le_mod_geq)
      qed
      finally show ?thesis
        using assms n0 False True by (simp add: mod_add_def Let_def)
    next
      case wrap: False
      then have lt: "unat a < unat n - unat b"
        by (simp add: word_le_nat_alt steps(1))
      have "unat (n - (n - b) + a) = unat n - (unat n - unat b) + unat a"
        by (simp only: steps(4) [OF wrap] steps(3) [OF wrap] steps(1))
      also have "\<dots> = unat a + unat b"
        using bn by arith
      also have "\<dots> = (unat a + unat b) mod unat n"
        using lt by simp
      finally show ?thesis
        using assms n0 False wrap by (simp add: mod_add_def Let_def)
    qed
  qed
qed

text \<open>One round of double-and-add keeps \<open>product + a * b\<close> modulo \<open>n\<close>.\<close>

lemma double_and_add_step:
  fixes p a b n :: nat
  shows "((if odd b then (p + a) mod n else p) + ((a + a) mod n) * (b div 2)) mod n
         = (p + a * b) mod n"
proof -
  have r: "(x + (y mod n) * c) mod n = (x + y * c) mod n" for x y c :: nat
    by (metis mod_add_right_eq mod_mult_left_eq)
  have l: "(x mod n + z) mod n = (x + z) mod n" for x z :: nat
    by (rule mod_add_left_eq)
  have "((if odd b then (p + a) mod n else p) + ((a + a) mod n) * (b div 2)) mod n
        = ((if odd b then p + a else p) + (a + a) * (b div 2)) mod n"
    by (cases "odd b") (simp_all add: r l)
  also have "(if odd b then p + a else p) + (a + a) * (b div 2) = p + a * b"
  proof (cases "odd b")
    case True
    then obtain c where "b = 2 * c + 1"
      by (auto elim: oddE)
    then show ?thesis
      by (simp add: algebra_simps)
  next
    case False
    then obtain c where "b = 2 * c"
      by (auto elim: evenE)
    then show ?thesis
      by (simp add: algebra_simps)
  qed
  finally show ?thesis .
qed

lemma mod_multiply_loop_nat:
  "product < n \<Longrightarrow> a < n \<Longrightarrow>
   \<exists>r. mod_multiply_loop product a b n = Returns r \<and>
       unat r = (unat product + unat a * unat b) mod unat n"
proof (induction product a b n rule: mod_multiply_loop.induct)
  case (1 product a b n)
  show ?case
  proof (cases "b = 0")
    case True
    with "1.prems" show ?thesis
      by (simp add: word_less_nat_alt)
  next
    case False
    obtain p' where p': "(if b AND 1 \<noteq> 0 then mod_add product a n else Returns product) = Returns p'"
      and p'_nat: "unat p' = (if odd (unat b) then (unat product + unat a) mod unat n else unat product)"
    proof (cases "odd (unat b)")
      case True
      with mod_add_nat [OF "1.prems"] that show ?thesis
        by (auto simp: and_1_odd)
    next
      case False
      with that show ?thesis
        by (auto simp: and_1_odd)
    qed
    obtain a' where a': "mod_add a a n = Returns a'"
      and a'_nat: "unat a' = (unat a + unat a) mod unat n"
      using mod_add_nat [OF "1.prems"(2) "1.prems"(2)] by auto
    have n0: "0 < unat n"
      using "1.prems"(1) by (simp add: word_less_nat_alt)
    have "p' < n"
      using p'_nat "1.prems"(1) n0 by (simp add: word_less_nat_alt)
    moreover have "a' < n"
      using a'_nat n0 by (simp add: word_less_nat_alt)
    ultimately obtain r where r: "mod_multiply_loop p' a' (drop_bit 1 b) n = Returns r"
      and r_nat: "unat r = (unat p' + unat a' * unat (drop_bit 1 b)) mod unat n"
      using "1.IH" [OF False p' a'] by auto
    have "mod_multiply_loop product a b n = Returns r"
      using False p' a' r by (subst mod_multiply_loop.simps) (simp del: One_nat_def)
    moreover have "unat r = (unat product + unat a * unat b) mod unat n"
      unfolding r_nat p'_nat a'_nat unat_shiftr1 by (rule double_and_add_step)
    ultimately show ?thesis
      by simp
  qed
qed

lemma mod_multiply_nat:
  fixes a b n :: uint64_t
  assumes "a < n" "b < n"
  shows "\<exists>r. mod_multiply a b n = Returns r \<and> unat r = (unat a * unat b) mod unat n"
proof -
  have n0: "0 < n"
    using assms(1) by (auto simp: word_gt_0)
  show ?thesis
  proof (cases "b > a")
    case True
    from mod_multiply_loop_nat [OF n0 assms(2), of a]
    show ?thesis
      using True assms n0 by (simp add: mod_multiply_def mult.commute)
  next
    case False
    from mod_multiply_loop_nat [OF n0 assms(1), of b]
    show ?thesis
      using False assms n0 by (simp add: mod_multiply_def)
  qed
qed

text \<open>
  C9. For \<open>a < n\<close> and \<open>b < n\<close>, \<open>mod_add a b n\<close> returns the integer
  \<open>(a + b) mod n\<close>, and no operation on the way wraps modulo \<open>2^64\<close>: the value of
  \<open>n - b\<close>, of \<open>a - b'\<close> in the first branch and of \<open>n - b'\<close> and \<open>n - b' + a\<close> in
  the second (\<open>b' = n - b\<close>) is the integer difference or sum of its operands.
\<close>

theorem mod_add_exact:
  fixes a b n :: uint64_t
  assumes "a < n" "b < n"
  shows "(\<exists>r. mod_add a b n = Returns r \<and> uint r = (uint a + uint b) mod uint n) \<and>
         uint (n - b) = uint n - uint b \<and>
         (n - b \<le> a \<longrightarrow> uint (a - (n - b)) = uint a - uint (n - b)) \<and>
         (\<not> n - b \<le> a \<longrightarrow>
            uint (n - (n - b)) = uint n - uint (n - b) \<and>
            uint (n - (n - b) + a) = uint (n - (n - b)) + uint a)"
proof -
  note steps = mod_add_steps [OF assms]
  from assms have bn: "unat b \<le> unat n"
    by (simp add: word_less_nat_alt)
  have le: "unat (n - b) \<le> unat n"
    by (simp add: steps(1))
  from mod_add_nat [OF assms] obtain r where
    r: "mod_add a b n = Returns r" "unat r = (unat a + unat b) mod unat n"
    by blast
  have "int (unat r) = (int (unat a) + int (unat b)) mod int (unat n)"
    by (simp only: r(2) zmod_int of_nat_add)
  then have "uint r = (uint a + uint b) mod uint n"
    by (simp only: uint_nat)
  with r(1) have "\<exists>r. mod_add a b n = Returns r \<and> uint r = (uint a + uint b) mod uint n"
    by blast
  moreover have "uint (n - b) = uint n - uint b"
    using bn by (simp only: uint_nat steps(1) of_nat_diff)
  moreover have "uint (a - (n - b)) = uint a - uint (n - b)" if "n - b \<le> a"
  proof -
    from that have "unat (n - b) \<le> unat a"
      by (simp only: word_le_nat_alt)
    then show ?thesis
      by (simp only: uint_nat steps(2) [OF that] of_nat_diff)
  qed
  moreover have "uint (n - (n - b)) = uint n - uint (n - b)" if "\<not> n - b \<le> a"
    using le by (simp only: uint_nat steps(3) [OF that] of_nat_diff)
  moreover have "uint (n - (n - b) + a) = uint (n - (n - b)) + uint a" if "\<not> n - b \<le> a"
    by (simp only: uint_nat steps(4) [OF that] of_nat_add)
  ultimately show ?thesis
    by blast
qed

theorem mod_add_exact_witness:
  "(18446744073709551614 :: uint64_t) < 18446744073709551615 \<and>
   (18446744073709551613 :: uint64_t) < 18446744073709551615 \<and>
   mod_add 18446744073709551614 18446744073709551613 18446744073709551615
     = Returns 18446744073709551612"
proof -
  have a: "(18446744073709551614 :: uint64_t) < 18446744073709551615"
    by simp
  have b: "(18446744073709551613 :: uint64_t) < 18446744073709551615"
    by simp
  from mod_add_exact [OF a b] obtain r where
    r: "mod_add 18446744073709551614 18446744073709551613 18446744073709551615 = Returns r"
    and v: "uint r = (uint (18446744073709551614 :: uint64_t) + uint (18446744073709551613 :: uint64_t))
                       mod uint (18446744073709551615 :: uint64_t)"
    by blast
  from v have "uint r = 18446744073709551612"
    by simp
  then have "word_of_int (uint r) = (word_of_int 18446744073709551612 :: uint64_t)"
    by simp
  then have "r = 18446744073709551612"
    by simp
  with r a b show ?thesis
    by simp
qed

text \<open>
  C10. For \<open>a < n\<close> and \<open>b < n\<close>, \<open>mod_multiply a b n\<close> returns the integer
  \<open>(a * b) mod n\<close>, whatever the size of the full product \<open>a * b\<close>: the
  double-and-add loop, built on \<open>mod_add\<close>, ends and no assertion fails.
\<close>

theorem mod_multiply_exact:
  fixes a b n :: uint64_t
  assumes "a < n" "b < n"
  shows "\<exists>r. mod_multiply a b n = Returns r \<and> uint r = (uint a * uint b) mod uint n"
proof -
  from mod_multiply_nat [OF assms] obtain r where
    r: "mod_multiply a b n = Returns r" "unat r = (unat a * unat b) mod unat n"
    by blast
  have "int (unat r) = (int (unat a) * int (unat b)) mod int (unat n)"
    by (simp only: r(2) zmod_int of_nat_mult)
  then have "uint r = (uint a * uint b) mod uint n"
    by (simp only: uint_nat)
  with r(1) show ?thesis
    by blast
qed

theorem mod_multiply_exact_witness:
  "(18446743983658366132 :: uint64_t) < 18446743988858366132 \<and>
   (17446663900858366132 :: uint64_t) < 18446743988858366132 \<and>
   mod_multiply 18446743983658366132 17446663900858366132 18446743988858366132
     = Returns 6543347294009229256"
proof -
  have a: "(18446743983658366132 :: uint64_t) < 18446743988858366132"
    by simp
  have b: "(17446663900858366132 :: uint64_t) < 18446743988858366132"
    by simp
  from mod_multiply_exact [OF a b] obtain r where
    r: "mod_multiply 18446743983658366132 17446663900858366132 18446743988858366132 = Returns r"
    and v: "uint r = (uint (18446743983658366132 :: uint64_t) * uint (17446663900858366132 :: uint64_t))
                       mod uint (18446743988858366132 :: uint64_t)"
    by blast
  from v have "uint r = 6543347294009229256"
    by simp
  then have "word_of_int (uint r) = (word_of_int 6543347294009229256 :: uint64_t)"
    by simp
  then have "r = 6543347294009229256"
    by simp
  with r a b show ?thesis
    by simp
qed

end
